theory Spec2Isabelle
  imports Main "HOL-Library.Word"
begin

section \<open>Buffered file object over a chunked remote source (grr_colab/vfs.py, VfsFile)\<close>

text \<open>
  A byte is an 8-bit word, a chunk a list of bytes. The generator returned by
  \<open>fetch(offset)\<close> is modelled by the list of chunks it has still to yield:
  \<open>next\<close> removes the head, and on the empty list it raises \<open>StopIteration\<close>.
  Python integers are \<open>int\<close>.
\<close>

type_synonym byte = "8 word"
type_synonym chunk = "byte list"

datatype io_error = ValueError string | UnsupportedOperation int

text \<open>
  The fields of \<open>VfsFile\<close>, under the names of the source without the leading
  underscore. Two fields are bookkeeping that the source does not have; no operation
  reads them: \<open>fetch_log\<close> lists the offsets \<open>fetch\<close> has been called with, in
  call order, and \<open>next_calls\<close> counts the calls of \<open>next\<close> on the generator.
\<close>

record vfs_file =
  data :: "chunk list"
  buffer :: "byte list"
  buffer_pos :: int
  pos :: int
  eof :: bool
  closed :: bool
  fetch :: "int \<Rightarrow> chunk list"
  fetch_log :: "int list"
  next_calls :: nat

text \<open>\<open>VfsFile.__init__\<close>: the constructor calls \<open>fetch(0)\<close>.\<close>

definition init :: "(int \<Rightarrow> chunk list) \<Rightarrow> vfs_file" where
  "init f = \<lparr>data = f 0, buffer = [], buffer_pos = 0, pos = 0, eof = False,
             closed = False, fetch = f, fetch_log = [0], next_calls = 0\<rparr>"

definition closed_msg :: string where
  "closed_msg = ''File has already been closed.''"

text \<open>\<open>_ensure_not_closed\<close>: \<open>None\<close> when the check passes.\<close>

definition ensure_not_closed :: "vfs_file \<Rightarrow> io_error option" where
  "ensure_not_closed s = (if closed s then Some (ValueError closed_msg) else None)"

text \<open>\<open>_load_buffer\<close>\<close>

definition load_buffer :: "vfs_file \<Rightarrow> vfs_file" where
  "load_buffer s =
     (if eof s then s
      else (case data s of
              [] \<Rightarrow> s\<lparr>eof := True, buffer := [], buffer_pos := 0,
                      next_calls := next_calls s + 1\<rparr>
            | c # cs \<Rightarrow> s\<lparr>data := cs, buffer := c, buffer_pos := 0,
                          next_calls := next_calls s + 1\<rparr>))"

definition is_buffer_empty :: "vfs_file \<Rightarrow> bool" where
  "is_buffer_empty s = (buffer_pos s = int (length (buffer s)))"

text \<open>
  Python's \<open>xs[i:j]\<close> for integers \<open>i\<close>, \<open>j\<close>: a negative index counts from the
  end, and both are clamped to the length.
\<close>

definition py_index :: "int \<Rightarrow> int \<Rightarrow> nat" where
  "py_index n i = nat (min n (max 0 (if i < 0 then i + n else i)))"

definition py_slice :: "'a list \<Rightarrow> int \<Rightarrow> int \<Rightarrow> 'a list" where
  "py_slice xs i j =
     (let lo = py_index (int (length xs)) i; hi = py_index (int (length xs)) j
      in take (hi - lo) (drop lo xs))"

text \<open>\<open>_read_from_buffer\<close>: the bytes returned and the state after.\<close>

definition read_from_buffer :: "vfs_file \<Rightarrow> int \<Rightarrow> byte list \<times> vfs_file" where
  "read_from_buffer s size0 =
     (let s1 = (if is_buffer_empty s then load_buffer s else s);
          available = int (length (buffer s1)) - buffer_pos s1;
          size1 = min size0 available;
          size2 = (if size1 < 0 then available else size1);
          s2 = s1\<lparr>buffer_pos := buffer_pos s1 + size2, pos := pos s1 + size2\<rparr>
      in (py_slice (buffer s2) (buffer_pos s2 - size2) (buffer_pos s2), s2))"

text \<open>\<open>close\<close>\<close>

definition close :: "vfs_file \<Rightarrow> vfs_file" where
  "close s = s\<lparr>closed := True\<rparr>"

text \<open>\<open>tell\<close>\<close>

definition tell :: "vfs_file \<Rightarrow> io_error + int" where
  "tell s = (case ensure_not_closed s of Some e \<Rightarrow> Inl e | None \<Rightarrow> Inr (pos s))"

text \<open>
  \<open>seek\<close>: \<open>io.SEEK_SET\<close> is 0 and \<open>io.SEEK_CUR\<close> is 1. \<open>seek_to\<close> is the
  part of the method after \<open>new_pos\<close> has been computed.
\<close>

definition SEEK_SET :: int where "SEEK_SET = 0"
definition SEEK_CUR :: int where "SEEK_CUR = 1"

definition seek_to :: "vfs_file \<Rightarrow> int \<Rightarrow> vfs_file" where
  "seek_to s new_pos =
     (let buffer_start_pos = pos s - buffer_pos s;
          s1 = (if buffer_start_pos \<le> new_pos
                   \<and> new_pos \<le> buffer_start_pos + int (length (buffer s))
                then s\<lparr>buffer_pos := buffer_pos s + (new_pos - pos s), pos := new_pos\<rparr>
                else s\<lparr>data := fetch s new_pos, pos := new_pos, buffer := [],
                       buffer_pos := 0, fetch_log := fetch_log s @ [new_pos]\<rparr>)
      in s1\<lparr>eof := False\<rparr>)"

definition seek :: "vfs_file \<Rightarrow> int \<Rightarrow> int \<Rightarrow> io_error + (int \<times> vfs_file)" where
  "seek s offset whence =
     (case ensure_not_closed s of
        Some e \<Rightarrow> Inl e
      | None \<Rightarrow>
          if whence = SEEK_SET then
            (let s' = seek_to s offset in Inr (pos s', s'))
          else if whence = SEEK_CUR then
            (let s' = seek_to s (pos s + offset) in Inr (pos s', s'))
          else Inl (UnsupportedOperation whence))"

text \<open>
  The loop of \<open>read\<close>: \<open>acc\<close> is the bytearray \<open>data\<close>, \<open>size0\<close> the size after
  \<open>size = size or -1\<close>.
\<close>

function read_loop :: "int \<Rightarrow> byte list \<Rightarrow> vfs_file \<Rightarrow> byte list \<times> vfs_file" where
  "read_loop size0 acc s =
     (if \<not> eof s \<and> (size0 < 0 \<or> int (length acc) < size0)
      then read_loop size0
             (acc @ fst (read_from_buffer s (size0 - int (length acc))))
             (snd (read_from_buffer s (size0 - int (length acc))))
      else (acc, s))"
  by pat_completeness auto
termination read_loop
proof (relation "measures [\<lambda>(size0, acc, s). length (data s) + (if eof s then 0 else 1),
                           \<lambda>(size0, acc, s). nat \<bar>int (length (buffer s)) - buffer_pos s\<bar>]")
  show "wf (measures [\<lambda>(size0, acc, s). length (data s) + (if eof s then 0 else 1),
                      \<lambda>(size0, acc, s). nat \<bar>int (length (buffer s)) - buffer_pos s\<bar>])"
    by simp
next
  fix size0 :: int and acc :: "byte list" and s :: vfs_file
  define r where "r = size0 - int (length acc)"
  define s' where "s' = snd (read_from_buffer s r)"
  assume "\<not> eof s \<and> (size0 < 0 \<or> int (length acc) < size0)"
  then have open_end: "\<not> eof s" and wanted: "r < 0 \<or> 0 < r"
    by (auto simp: r_def)
  have "length (data s') + (if eof s' then 0 else 1) < length (data s) + 1
        \<or> (length (data s') + (if eof s' then 0 else 1) = length (data s) + 1
           \<and> nat \<bar>int (length (buffer s')) - buffer_pos s'\<bar>
               < nat \<bar>int (length (buffer s)) - buffer_pos s\<bar>)"
  proof (cases "is_buffer_empty s")
    case True
    then show ?thesis using open_end
      by (auto simp: s'_def read_from_buffer_def load_buffer_def Let_def split: list.splits)
  next
    case False
    then show ?thesis using open_end wanted
      by (auto simp: s'_def read_from_buffer_def is_buffer_empty_def Let_def min_def)
  qed
  then show "((size0, acc @ fst (read_from_buffer s (size0 - int (length acc))),
               snd (read_from_buffer s (size0 - int (length acc)))), size0, acc, s)
             \<in> measures [\<lambda>(size0, acc, s). length (data s) + (if eof s then 0 else 1),
                          \<lambda>(size0, acc, s). nat \<bar>int (length (buffer s)) - buffer_pos s\<bar>]"
    using open_end by (auto simp: s'_def r_def)
qed

declare read_loop.simps [simp del]

text \<open>\<open>read\<close>: \<open>size or -1\<close> turns a size of 0 into -1.\<close>

definition read :: "vfs_file \<Rightarrow> int \<Rightarrow> io_error + (byte list \<times> vfs_file)" where
  "read s size0 =
     (case ensure_not_closed s of
        Some e \<Rightarrow> Inl e
      | None \<Rightarrow> Inr (read_loop (if size0 = 0 then - 1 else size0) [] s))"

text \<open>\<open>read1\<close>\<close>

definition read1 :: "vfs_file \<Rightarrow> int \<Rightarrow> io_error + (byte list \<times> vfs_file)" where
  "read1 s size0 =
     (case ensure_not_closed s of
        Some e \<Rightarrow> Inl e
      | None \<Rightarrow>
          (let has_data = \<not> is_buffer_empty s;
               d1 = fst (read_from_buffer s size0);
               s1 = snd (read_from_buffer s size0)
           in if has_data \<and> (size0 < 0 \<or> int (length d1) < size0)
              then (let d2 = fst (read_from_buffer s1 (size0 - int (length d1)));
                        s2 = snd (read_from_buffer s1 (size0 - int (length d1)))
                    in Inr (d1 @ d2, s2))
              else Inr (d1, s1)))"

text \<open>
  \<open>readinto1\<close>: the assignment \<open>b[:k] = d\<close> replaces the slice from 0 to \<open>k\<close>
  (clamped to the length of \<open>b\<close>) by \<open>d\<close>. The result is the count returned, the
  buffer \<open>b\<close> after the call and the state after.
\<close>

definition py_assign_prefix :: "'a list \<Rightarrow> int \<Rightarrow> 'a list \<Rightarrow> 'a list" where
  "py_assign_prefix b k d = d @ drop (py_index (int (length b)) k) b"

definition readinto1 ::
  "vfs_file \<Rightarrow> byte list \<Rightarrow> io_error + (int \<times> byte list \<times> vfs_file)" where
  "readinto1 s b =
     (case ensure_not_closed s of
        Some e \<Rightarrow> Inl e
      | None \<Rightarrow>
          (case read1 s (int (length b)) of
             Inl e \<Rightarrow> Inl e
           | Inr (d, s') \<Rightarrow>
               Inr (int (length d), py_assign_prefix b (int (length d)) d, s')))"

section \<open>Directory listing (grr_colab/vfs.py, VFS.ls)\<close>

text \<open>
  The API client is a parameter: \<open>File_Get c p\<close> is \<open>c.File(p).Get()\<close>, which
  raises an API error or returns a file with its \<open>is_directory\<close> flag, and
  \<open>ListFiles\<close> is the list of \<open>_.data.stat\<close> of the files that \<open>f.ListFiles()\<close>
  yields, or the API error it raises. Of the API errors \<open>ls\<close> catches
  \<open>AccessForbiddenError\<close> only; any other one leaves \<open>ls\<close> as it is.
\<close>

datatype api_error = AccessForbiddenError string | OtherApiError string

datatype vfs_error =
    ApprovalMissingError string api_error
  | NotDirectoryError string string
  | UncaughtApiError api_error

record stat_entry =
  pathspec_path :: string
  st_payload :: nat

record api_file =
  is_directory :: bool
  ListFiles :: "api_error + stat_entry list"

record api_client =
  client_id :: string
  File_Get :: "string \<Rightarrow> api_error + api_file"

definition get_vfs_path :: "string \<Rightarrow> string" where
  "get_vfs_path path = ''fs/os'' @ path"

text \<open>
  \<open>ls\<close>, and \<open>ls_inner\<close> for its loop over \<open>stat_entries\<close> with the
  accumulator \<open>inner_entries\<close>.
\<close>

function ls :: "api_client \<Rightarrow> string \<Rightarrow> int \<Rightarrow> vfs_error + stat_entry list"
  and ls_inner :: "api_client \<Rightarrow> stat_entry list \<Rightarrow> int \<Rightarrow> stat_entry list
                     \<Rightarrow> vfs_error + stat_entry list"
where
  "ls c path max_depth =
     (if max_depth < 1 then Inr []
      else (case File_Get c (get_vfs_path path) of
              Inl (AccessForbiddenError e) \<Rightarrow>
                Inl (ApprovalMissingError (client_id c) (AccessForbiddenError e))
            | Inl (OtherApiError e) \<Rightarrow> Inl (UncaughtApiError (OtherApiError e))
            | Inr f \<Rightarrow>
                if \<not> is_directory f then Inl (NotDirectoryError (client_id c) path)
                else (case ListFiles f of
                        Inl (AccessForbiddenError e) \<Rightarrow>
                          Inl (ApprovalMissingError (client_id c) (AccessForbiddenError e))
                      | Inl (OtherApiError e) \<Rightarrow> Inl (UncaughtApiError (OtherApiError e))
                      | Inr stat_entries \<Rightarrow>
                          (case ls_inner c stat_entries max_depth [] of
                             Inl err \<Rightarrow> Inl err
                           | Inr inner_entries \<Rightarrow> Inr (stat_entries @ inner_entries)))))"
| "ls_inner c [] max_depth inner_entries = Inr inner_entries"
| "ls_inner c (entry # rest) max_depth inner_entries =
     (case ls c (pathspec_path entry) (max_depth - 1) of
        Inr sub \<Rightarrow> ls_inner c rest max_depth (inner_entries @ sub)
      | Inl (NotDirectoryError cid p) \<Rightarrow> ls_inner c rest max_depth (inner_entries @ [])
      | Inl err \<Rightarrow> Inl err)"
  by pat_completeness auto
termination
  by (relation "measures
        [\<lambda>x. case x of Inl (c, path, d) \<Rightarrow> nat (2 * d)
                       | Inr (c, es, d, acc) \<Rightarrow> nat (2 * max d 1 - 1),
         \<lambda>x. case x of Inl (c, path, d) \<Rightarrow> 0
                       | Inr (c, es, d, acc) \<Rightarrow> length es]") auto

declare ls.simps [simp del]

text \<open>
  What one child adds to \<open>inner_entries\<close> in the loop of \<open>ls\<close> (the listing of the child, or
  nothing when the call on the child raises), and whether the loop goes on after that child:
  it does when the call returns or raises \<open>NotDirectoryError\<close>.
\<close>

definition sub_entries :: "api_client \<Rightarrow> int \<Rightarrow> stat_entry \<Rightarrow> stat_entry list" where
  "sub_entries c max_depth entry =
     (case ls c (pathspec_path entry) (max_depth - 1) of Inr sub \<Rightarrow> sub | Inl err \<Rightarrow> [])"

definition tolerated :: "api_client \<Rightarrow> int \<Rightarrow> stat_entry \<Rightarrow> bool" where
  "tolerated c max_depth entry =
     (case ls c (pathspec_path entry) (max_depth - 1) of
        Inr sub \<Rightarrow> True
      | Inl (NotDirectoryError cid p) \<Rightarrow> True
      | Inl err \<Rightarrow> False)"

section \<open>Sample inputs\<close>

text \<open>A source with no content, and a three-byte source served in chunks of two.\<close>

definition empty_fetch :: "int \<Rightarrow> chunk list" where
  "empty_fetch off = []"

definition demo_fetch :: "int \<Rightarrow> chunk list" where
  "demo_fetch off =
     (if off = 0 then [[1, 2], [3]] else if off = 1 then [[2], [3]]
      else if off = 2 then [[3]] else [])"

text \<open>
  The state after \<open>read(-1)\<close> on a fresh file over the empty source, and the state
  after \<open>read1(1)\<close> on a fresh file over the three-byte source.
\<close>

definition drained_file :: vfs_file where
  "drained_file = \<lparr>data = [], buffer = [], buffer_pos = 0, pos = 0, eof = True,
       closed = False, fetch = empty_fetch, fetch_log = [0], next_calls = 1\<rparr>"

definition partly_read_file :: vfs_file where
  "partly_read_file = \<lparr>data = [[3]], buffer = [1, 2], buffer_pos = 1, pos = 1, eof = False,
       closed = False, fetch = demo_fetch, fetch_log = [0], next_calls = 1\<rparr>"

text \<open>The state after \<open>read1(1)\<close> and then \<open>read1(3)\<close> on that file.\<close>

definition refilled_file :: vfs_file where
  "refilled_file = \<lparr>data = [], buffer = [3], buffer_pos = 1, pos = 3, eof = False,
       closed = False, fetch = demo_fetch, fetch_log = [0], next_calls = 2\<rparr>"

text \<open>The state after reading that file to its end.\<close>

definition exhausted_file :: vfs_file where
  "exhausted_file = \<lparr>data = [], buffer = [], buffer_pos = 0, pos = 3, eof = True,
       closed = False, fetch = demo_fetch, fetch_log = [0], next_calls = 3\<rparr>"

text \<open>
  A directory \<open>/r\<close> with two sub-directories \<open>A\<close>, \<open>B\<close> of one file each and a plain file
  \<open>F\<close>; and the same tree where reading \<open>B\<close> is forbidden and the children are listed in the
  order \<open>F\<close>, \<open>B\<close>, \<open>A\<close>.
\<close>

definition entry_A :: stat_entry where "entry_A = \<lparr>pathspec_path = ''/r/A'', st_payload = 1\<rparr>"
definition entry_B :: stat_entry where "entry_B = \<lparr>pathspec_path = ''/r/B'', st_payload = 2\<rparr>"
definition entry_F :: stat_entry where "entry_F = \<lparr>pathspec_path = ''/r/F'', st_payload = 3\<rparr>"
definition entry_a1 :: stat_entry where "entry_a1 = \<lparr>pathspec_path = ''/r/A/a1'', st_payload = 4\<rparr>"
definition entry_b1 :: stat_entry where "entry_b1 = \<lparr>pathspec_path = ''/r/B/b1'', st_payload = 5\<rparr>"

definition plain_file :: api_file where
  "plain_file = \<lparr>is_directory = False, ListFiles = Inr []\<rparr>"

definition demo_client :: api_client where
  "demo_client = \<lparr>client_id = ''C.1'', File_Get = (\<lambda>p.
      if p = ''fs/os/r'' then Inr \<lparr>is_directory = True, ListFiles = Inr [entry_A, entry_B, entry_F]\<rparr>
      else if p = ''fs/os/r/A'' then Inr \<lparr>is_directory = True, ListFiles = Inr [entry_a1]\<rparr>
      else if p = ''fs/os/r/B'' then Inr \<lparr>is_directory = True, ListFiles = Inr [entry_b1]\<rparr>
      else Inr plain_file)\<rparr>"

definition locked_client :: api_client where
  "locked_client = \<lparr>client_id = ''C.1'', File_Get = (\<lambda>p.
      if p = ''fs/os/r'' then Inr \<lparr>is_directory = True, ListFiles = Inr [entry_F, entry_B, entry_A]\<rparr>
      else if p = ''fs/os/r/A'' then Inr \<lparr>is_directory = True, ListFiles = Inr [entry_a1]\<rparr>
      else if p = ''fs/os/r/B'' then Inl (AccessForbiddenError ''no approval'')
      else Inr plain_file)\<rparr>"

section \<open>State invariant\<close>

text \<open>The cursor lies inside the buffer: \<open>0 \<le> _buffer_pos \<le> len(_buffer)\<close>.\<close>

definition cursor_ok :: "vfs_file \<Rightarrow> bool" where
  "cursor_ok s = (0 \<le> buffer_pos s \<and> buffer_pos s \<le> int (length (buffer s)))"

section \<open>The closed file\<close>

text \<open>
  C1 (as amended). After \<open>close\<close>, every \<open>read\<close>, \<open>read1\<close>, \<open>seek\<close> and also
  \<open>tell\<close> fails with the \<open>ValueError\<close> of \<open>_ensure_not_closed\<close>, whatever the
  state before and whatever the arguments; a second \<open>close\<close> succeeds and changes
  nothing.
\<close>

theorem closed_file_rejects:
  "read (close s) n = Inl (ValueError closed_msg)
   \<and> read1 (close s) n = Inl (ValueError closed_msg)
   \<and> seek (close s) offset whence = Inl (ValueError closed_msg)
   \<and> tell (close s) = Inl (ValueError closed_msg)
   \<and> close (close s) = close s"
  by (simp add: read_def read1_def seek_def tell_def close_def ensure_not_closed_def)

text \<open>
  C1 as stated fails: \<open>tell\<close> on a closed file does not return the position, it
  raises as the other operations do.
\<close>

theorem tell_after_close_counterexample:
  "tell (close (init empty_fetch)) = Inl (ValueError closed_msg)
   \<and> tell (close (init empty_fetch)) \<noteq> Inr (pos (init empty_fetch))"
  by (simp add: tell_def close_def ensure_not_closed_def)

section \<open>Opening a file\<close>

text \<open>
  C7 (as amended). The constructor sets the position to 0, the buffer to empty and the
  file to open, and it calls \<open>fetch\<close> exactly once, with offset 0, to obtain the
  generator; it takes no chunk from that generator.
\<close>

theorem init_fetches_once:
  "pos (init f) = 0 \<and> buffer (init f) = [] \<and> buffer_pos (init f) = 0
   \<and> \<not> closed (init f) \<and> \<not> eof (init f)
   \<and> data (init f) = f 0 \<and> fetch_log (init f) = [0] \<and> next_calls (init f) = 0"
  by (simp add: init_def)

text \<open>C7 as stated fails: \<open>fetch\<close> has been called once when the constructor returns.\<close>

theorem init_fetch_counterexample:
  "fetch_log (init demo_fetch) = [0] \<and> fetch_log (init demo_fetch) \<noteq> []"
  by (simp add: init_def)

section \<open>Reading from the buffer\<close>

lemma py_slice_length_le:
  "i \<le> j \<or> 0 \<le> j \<Longrightarrow> int (length (py_slice xs i j)) \<le> max 0 (j - i)"
  by (auto simp: py_slice_def py_index_def Let_def min_def max_def)

lemma load_buffer_cursor_ok: "cursor_ok s \<Longrightarrow> cursor_ok (load_buffer s)"
  by (auto simp: cursor_ok_def load_buffer_def split: list.splits)

lemma load_buffer_pos: "pos (load_buffer s) = pos s"
  by (auto simp: load_buffer_def split: list.splits)

lemma read_from_buffer_cursor_ok:
  "cursor_ok s \<Longrightarrow> cursor_ok (snd (read_from_buffer s n))"
  using load_buffer_cursor_ok[of s]
  by (auto simp: read_from_buffer_def Let_def cursor_ok_def min_def)

lemma read_from_buffer_pos:
  "cursor_ok s \<Longrightarrow> pos s \<le> pos (snd (read_from_buffer s n))"
  using load_buffer_cursor_ok[of s] load_buffer_pos[of s]
  by (auto simp: read_from_buffer_def Let_def cursor_ok_def min_def)

lemma read_from_buffer_capped:
  assumes n: "0 \<le> n"
  shows "int (length (fst (read_from_buffer s n))) \<le> n"
proof -
  define s1 where "s1 = (if is_buffer_empty s then load_buffer s else s)"
  define available where "available = int (length (buffer s1)) - buffer_pos s1"
  define size2 where "size2 = (if min n available < 0 then available else min n available)"
  have "fst (read_from_buffer s n)
        = py_slice (buffer s1) (buffer_pos s1 + size2 - size2) (buffer_pos s1 + size2)"
    by (simp add: read_from_buffer_def Let_def s1_def available_def size2_def)
  moreover have "size2 \<le> n" using n by (auto simp: size2_def min_def)
  moreover have "0 \<le> size2 \<or> 0 \<le> buffer_pos s1 + size2"
    by (auto simp: size2_def available_def min_def)
  ultimately show ?thesis
    using py_slice_length_le[of "buffer_pos s1 + size2 - size2" "buffer_pos s1 + size2" "buffer s1"] n
    by auto
qed

lemma read_from_buffer_closed: "closed (snd (read_from_buffer s n)) = closed s"
  by (auto simp: read_from_buffer_def Let_def load_buffer_def split: list.splits)

lemma read_loop_cursor_ok:
  "cursor_ok s \<Longrightarrow>
   cursor_ok (snd (read_loop n acc s)) \<and> pos s \<le> pos (snd (read_loop n acc s))"
proof (induction n acc s rule: read_loop.induct)
  case (1 size0 acc s)
  let ?d = "fst (read_from_buffer s (size0 - int (length acc)))"
  let ?s1 = "snd (read_from_buffer s (size0 - int (length acc)))"
  show ?case
  proof (cases "\<not> eof s \<and> (size0 < 0 \<or> int (length acc) < size0)")
    case True
    have c: "cursor_ok ?s1"
      using "1.prems" by (simp add: read_from_buffer_cursor_ok)
    have p: "pos s \<le> pos ?s1"
      using "1.prems" by (rule read_from_buffer_pos)
    have ih: "cursor_ok (snd (read_loop size0 (acc @ ?d) ?s1))
              \<and> pos ?s1 \<le> pos (snd (read_loop size0 (acc @ ?d) ?s1))"
      using "1.IH"[OF True c] .
    have step: "read_loop size0 acc s = read_loop size0 (acc @ ?d) ?s1"
      using True by (subst read_loop.simps) simp
    show ?thesis unfolding step using ih p by auto
  next
    case False
    have "read_loop size0 acc s = (acc, s)"
      using False by (subst read_loop.simps) auto
    then show ?thesis using "1.prems" by simp
  qed
qed

lemma drain_step: "read_from_buffer (init empty_fetch) (- 1) = ([], drained_file)"
  unfolding read_from_buffer_def Let_def
  by (simp add: init_def empty_fetch_def drained_file_def is_buffer_empty_def load_buffer_def
      py_slice_def py_index_def)

lemma drained_file_reached: "read (init empty_fetch) (- 1) = Inr ([], drained_file)"
proof -
  have fresh: "\<not> eof (init empty_fetch)" "\<not> closed (init empty_fetch)"
    by (simp_all add: init_def)
  have "read_loop (- 1) [] (init empty_fetch) = read_loop (- 1) [] drained_file"
    by (subst read_loop.simps) (simp add: drain_step fresh)
  moreover have "read_loop (- 1) [] drained_file = ([], drained_file)"
    by (subst read_loop.simps) (simp add: drained_file_def)
  ultimately show ?thesis
    by (simp add: read_def ensure_not_closed_def fresh)
qed

lemma part_step: "read_from_buffer (init demo_fetch) 1 = ([1], partly_read_file)"
  unfolding read_from_buffer_def Let_def
  by (simp add: init_def demo_fetch_def partly_read_file_def is_buffer_empty_def load_buffer_def
      py_slice_def py_index_def)

lemma partly_read_file_reached: "read1 (init demo_fetch) 1 = Inr ([1], partly_read_file)"
  unfolding read1_def Let_def part_step
  by (simp add: ensure_not_closed_def init_def is_buffer_empty_def)

section \<open>Seeking inside the buffer\<close>

text \<open>
  C6 (as amended). On an open file, a seek with a supported whence whose target
  \<open>new_pos\<close> satisfies \<open>buffer_start \<le> new_pos \<le> buffer_start + len(buffer)\<close>
  (bounds included, \<open>buffer_start = pos - buffer_pos\<close>) succeeds, moves the cursor and
  the position to the target, clears \<open>eof\<close> and changes nothing else: the buffer, the
  generator and the log of \<open>fetch\<close> calls are as before. A second seek into the same
  range again leaves them as before, so \<open>fetch\<close> is not called by either.
\<close>

theorem seek_within_buffer:
  assumes "\<not> closed s" and "whence = SEEK_SET \<or> whence = SEEK_CUR"
    and "new_pos = (if whence = SEEK_SET then offset else pos s + offset)"
    and "pos s - buffer_pos s \<le> new_pos"
    and "new_pos \<le> pos s - buffer_pos s + int (length (buffer s))"
  shows "seek s offset whence
           = Inr (new_pos, s\<lparr>buffer_pos := buffer_pos s + (new_pos - pos s),
                             pos := new_pos, eof := False\<rparr>)
       \<and> (\<forall>o2. pos s - buffer_pos s \<le> o2
                \<and> o2 \<le> pos s - buffer_pos s + int (length (buffer s)) \<longrightarrow>
             seek (s\<lparr>buffer_pos := buffer_pos s + (new_pos - pos s),
                      pos := new_pos, eof := False\<rparr>) o2 SEEK_SET
               = Inr (o2, s\<lparr>buffer_pos := buffer_pos s + (o2 - pos s),
                             pos := o2, eof := False\<rparr>))"
  using assms
  by (auto simp: seek_def seek_to_def ensure_not_closed_def SEEK_SET_def SEEK_CUR_def Let_def)

theorem seek_within_buffer_witness:
  "\<not> closed partly_read_file
   \<and> seek partly_read_file 2 SEEK_SET
       = Inr (2, partly_read_file\<lparr>buffer_pos := 2, pos := 2, eof := False\<rparr>)
   \<and> seek (partly_read_file\<lparr>buffer_pos := 2, pos := 2, eof := False\<rparr>) 0 SEEK_SET
       = Inr (0, partly_read_file\<lparr>buffer_pos := 0, pos := 0, eof := False\<rparr>)"
  using seek_within_buffer [of partly_read_file SEEK_SET 2 2]
  by (simp add: partly_read_file_def)

text \<open>
  C6 as stated fails: the seek changes a third field. After \<open>read(-1)\<close> on the empty
  source \<open>eof\<close> is set, and a seek to the current position, which is in range,
  clears it.
\<close>

theorem seek_clears_eof_counterexample:
  "read (init empty_fetch) (- 1) = Inr ([], drained_file)
   \<and> pos drained_file - buffer_pos drained_file \<le> 0
   \<and> 0 \<le> pos drained_file - buffer_pos drained_file + int (length (buffer drained_file))
   \<and> seek drained_file 0 SEEK_SET = Inr (0, drained_file\<lparr>eof := False\<rparr>)
   \<and> eof drained_file \<and> \<not> eof (drained_file\<lparr>eof := False\<rparr>)"
  using drained_file_reached
  by (simp add: seek_def seek_to_def ensure_not_closed_def SEEK_SET_def drained_file_def)

section \<open>\<open>read1\<close>\<close>

lemma read_from_buffer_next_calls:
  "next_calls (snd (read_from_buffer s n))
     = next_calls s + (if is_buffer_empty s \<and> \<not> eof s then 1 else 0)"
  by (auto simp: read_from_buffer_def Let_def load_buffer_def split: list.splits)

lemma read_from_buffer_fetch_log: "fetch_log (snd (read_from_buffer s n)) = fetch_log s"
  by (auto simp: read_from_buffer_def Let_def load_buffer_def split: list.splits)

lemma read_from_buffer_keeps_chunk:
  "\<not> is_buffer_empty s \<Longrightarrow>
   buffer (snd (read_from_buffer s n)) = buffer s \<and> data (snd (read_from_buffer s n)) = data s
   \<and> eof (snd (read_from_buffer s n)) = eof s"
  by (auto simp: read_from_buffer_def Let_def)

lemma py_slice_length_in_range:
  "0 \<le> i \<Longrightarrow> i \<le> j \<Longrightarrow> j \<le> int (length xs) \<Longrightarrow> int (length (py_slice xs i j)) = j - i"
  by (auto simp: py_slice_def py_index_def Let_def min_def max_def)

lemma py_slice_in_range:
  "0 \<le> i \<Longrightarrow> i \<le> j \<Longrightarrow> j \<le> int (length xs) \<Longrightarrow>
   py_slice xs i j = take (nat (j - i)) (drop (nat i) xs)"
  by (auto simp: py_slice_def py_index_def Let_def min_def max_def nat_diff_distrib)

lemma read_from_buffer_nonempty:
  assumes "cursor_ok s" and "\<not> is_buffer_empty s"
  shows "int (length (fst (read_from_buffer s n)))
           = (if n < 0 \<or> int (length (buffer s)) - buffer_pos s < n
              then int (length (buffer s)) - buffer_pos s else n)"
    and "is_buffer_empty (snd (read_from_buffer s n))
           = (n < 0 \<or> int (length (buffer s)) - buffer_pos s \<le> n)"
proof -
  define available where "available = int (length (buffer s)) - buffer_pos s"
  define size2 where "size2 = (if min n available < 0 then available else min n available)"
  have av: "0 < available" using assms by (auto simp: cursor_ok_def is_buffer_empty_def available_def)
  have sz: "size2 = (if n < 0 \<or> available < n then available else n)"
    using av by (auto simp: size2_def min_def)
  have f: "fst (read_from_buffer s n)
        = py_slice (buffer s) (buffer_pos s + size2 - size2) (buffer_pos s + size2)"
    and b: "buffer_pos (snd (read_from_buffer s n)) = buffer_pos s + size2"
    and bb: "buffer (snd (read_from_buffer s n)) = buffer s"
    using assms(2) by (simp_all add: read_from_buffer_def Let_def available_def size2_def)
  have rng: "0 \<le> size2" "buffer_pos s + size2 \<le> int (length (buffer s))"
    using av sz by (auto simp: available_def)
  show "int (length (fst (read_from_buffer s n)))
           = (if n < 0 \<or> int (length (buffer s)) - buffer_pos s < n
              then int (length (buffer s)) - buffer_pos s else n)"
    using py_slice_length_in_range[of "buffer_pos s" "buffer_pos s + size2" "buffer s"]
      assms(1) rng sz f by (auto simp: cursor_ok_def available_def)
  show "is_buffer_empty (snd (read_from_buffer s n))
           = (n < 0 \<or> int (length (buffer s)) - buffer_pos s \<le> n)"
    unfolding is_buffer_empty_def b bb using sz av by (auto simp: available_def)
qed

lemma read1_open:
  "\<not> closed s \<Longrightarrow> read1 s n =
     (if \<not> is_buffer_empty s
         \<and> (n < 0 \<or> int (length (fst (read_from_buffer s n))) < n)
      then Inr (fst (read_from_buffer s n)
                  @ fst (read_from_buffer (snd (read_from_buffer s n))
                           (n - int (length (fst (read_from_buffer s n))))),
                snd (read_from_buffer (snd (read_from_buffer s n))
                           (n - int (length (fst (read_from_buffer s n))))))
      else Inr (fst (read_from_buffer s n), snd (read_from_buffer s n)))"
  unfolding read1_def Let_def by (simp add: ensure_not_closed_def)

lemma read1_closed: "closed s \<Longrightarrow> read1 s n = Inl (ValueError closed_msg)"
  by (simp add: read1_def ensure_not_closed_def)

lemma read1_capped:
  assumes "read1 s n = Inr (d, s')" and "0 \<le> n"
  shows "int (length d) \<le> n"
proof -
  have op: "\<not> closed s" using assms(1) read1_closed[of s n] by auto
  show ?thesis
  proof (cases "\<not> is_buffer_empty s \<and> (n < 0 \<or> int (length (fst (read_from_buffer s n))) < n)")
    case True
    define d1 where "d1 = fst (read_from_buffer s n)"
    define d2 where "d2 = fst (read_from_buffer (snd (read_from_buffer s n)) (n - int (length d1)))"
    have "d = d1 @ d2" using assms(1) True read1_open[OF op, of n] by (simp add: d1_def d2_def)
    moreover have "int (length d1) < n" using True assms(2) by (auto simp: d1_def)
    moreover from this have "int (length d2) \<le> n - int (length d1)"
      unfolding d2_def by (intro read_from_buffer_capped) simp
    ultimately show ?thesis by simp
  next
    case False
    then have "d = fst (read_from_buffer s n)" using assms(1) read1_open[OF op, of n] by auto
    then show ?thesis using read_from_buffer_capped[OF assms(2), of s] by simp
  qed
qed

lemma read1_cursor_ok:
  assumes "read1 s n = Inr (d, s')" and "cursor_ok s"
  shows "cursor_ok s' \<and> pos s \<le> pos s'"
proof -
  have op: "\<not> closed s" using assms(1) read1_closed[of s n] by auto
  define s1 where "s1 = snd (read_from_buffer s n)"
  have s1: "cursor_ok s1" "pos s \<le> pos s1"
    using assms(2) read_from_buffer_cursor_ok[of s n] read_from_buffer_pos[of s n]
    by (auto simp: s1_def)
  show ?thesis
  proof (cases "\<not> is_buffer_empty s \<and> (n < 0 \<or> int (length (fst (read_from_buffer s n))) < n)")
    case True
    then have "s' = snd (read_from_buffer s1 (n - int (length (fst (read_from_buffer s n)))))"
      using assms(1) read1_open[OF op, of n] by (simp add: s1_def)
    then show ?thesis
      using s1 read_from_buffer_cursor_ok[of s1] read_from_buffer_pos[of s1
          "n - int (length (fst (read_from_buffer s n)))"] by auto
  next
    case False
    then have "s' = s1" using assms(1) read1_open[OF op, of n] by (auto simp: s1_def)
    then show ?thesis using s1 by simp
  qed
qed

lemma read1_next_calls:
  assumes "read1 s n = Inr (d, s')"
  shows "next_calls s' \<le> next_calls s + 1"
    and "fetch_log s' = fetch_log s"
    and "is_buffer_empty s \<Longrightarrow> next_calls s' = next_calls s + (if eof s then 0 else 1)"
proof -
  have op: "\<not> closed s" using assms(1) read1_closed[of s n] by auto
  define s1 where "s1 = snd (read_from_buffer s n)"
  define r where "r = n - int (length (fst (read_from_buffer s n)))"
  have cases: "(\<not> is_buffer_empty s \<and> s' = snd (read_from_buffer s1 r)) \<or> s' = s1"
    using assms read1_open[OF op, of n] by (auto simp: s1_def r_def split: if_splits)
  have n1: "next_calls s1 = next_calls s + (if is_buffer_empty s \<and> \<not> eof s then 1 else 0)"
    unfolding s1_def by (rule read_from_buffer_next_calls)
  have n2: "next_calls (snd (read_from_buffer s1 r))
              = next_calls s1 + (if is_buffer_empty s1 \<and> \<not> eof s1 then 1 else 0)"
    by (rule read_from_buffer_next_calls)
  show "next_calls s' \<le> next_calls s + 1" using cases n1 n2 by (auto split: if_splits)
  show "fetch_log s' = fetch_log s"
    using cases read_from_buffer_fetch_log[of s n] read_from_buffer_fetch_log[of s1 r]
    by (auto simp: s1_def)
  show "next_calls s' = next_calls s + (if eof s then 0 else 1)" if "is_buffer_empty s"
    using that cases n1 by auto
qed

lemma read1_from_buffer_only:
  assumes "read1 s n = Inr (d, s')" and "cursor_ok s" and "\<not> is_buffer_empty s"
    and "0 \<le> n" and "n \<le> int (length (buffer s)) - buffer_pos s"
  shows "next_calls s' = next_calls s \<and> buffer s' = buffer s \<and> data s' = data s
         \<and> d = take (nat n) (drop (nat (buffer_pos s)) (buffer s))"
proof -
  have op: "\<not> closed s" using assms(1) read1_closed[of s n] by auto
  have len: "int (length (fst (read_from_buffer s n))) = n"
    using read_from_buffer_nonempty(1)[OF assms(2,3), of n] assms(4,5) by auto
  then have res: "d = fst (read_from_buffer s n)" "s' = snd (read_from_buffer s n)"
    using assms(1) read1_open[OF op, of n] by auto
  have av: "0 < int (length (buffer s)) - buffer_pos s"
    using assms(2,3) by (auto simp: cursor_ok_def is_buffer_empty_def)
  have "fst (read_from_buffer s n) = py_slice (buffer s) (buffer_pos s + n - n) (buffer_pos s + n)"
    using assms(3,4,5) av by (simp add: read_from_buffer_def Let_def min_def)
  then have "d = take (nat n) (drop (nat (buffer_pos s)) (buffer s))"
    using py_slice_in_range[of "buffer_pos s" "buffer_pos s + n" "buffer s"] assms(2,4,5) res
    by (auto simp: cursor_ok_def)
  then show ?thesis
    using res read_from_buffer_keeps_chunk[OF assms(3), of n]
      read_from_buffer_next_calls[of s n] assms(3) by simp
qed


lemma read_from_buffer_takes_rest:
  assumes "cursor_ok s" and "\<not> is_buffer_empty s"
    and "n < 0 \<or> int (length (buffer s)) - buffer_pos s < n"
  shows "fst (read_from_buffer s n) = drop (nat (buffer_pos s)) (buffer s)"
proof -
  define available where "available = int (length (buffer s)) - buffer_pos s"
  define size2 where "size2 = (if min n available < 0 then available else min n available)"
  have av: "0 < available"
    using assms(1,2) by (auto simp: cursor_ok_def is_buffer_empty_def available_def)
  have sz: "size2 = available" using av assms(3) by (auto simp: size2_def min_def available_def)
  have "fst (read_from_buffer s n)
        = py_slice (buffer s) (buffer_pos s + size2 - size2) (buffer_pos s + size2)"
    using assms(2) by (simp add: read_from_buffer_def Let_def available_def size2_def)
  then have "fst (read_from_buffer s n)
        = py_slice (buffer s) (buffer_pos s) (int (length (buffer s)))"
    by (simp add: sz available_def)
  then show ?thesis
    using py_slice_in_range[of "buffer_pos s" "int (length (buffer s))" "buffer s"] assms(1)
    by (simp add: cursor_ok_def)
qed

lemma read_from_buffer_at_eof:
  assumes "is_buffer_empty s" and "eof s"
  shows "fst (read_from_buffer s k) = []"
    and "buffer (snd (read_from_buffer s k)) = buffer s"
    and "data (snd (read_from_buffer s k)) = data s"
    and "eof (snd (read_from_buffer s k))"
  using assms unfolding read_from_buffer_def Let_def
  by (simp_all add: load_buffer_def is_buffer_empty_def py_slice_def py_index_def)

lemma read_from_buffer_exhausted:
  assumes "is_buffer_empty s" and "\<not> eof s" and "data s = []"
  shows "fst (read_from_buffer s k) = []"
    and "buffer (snd (read_from_buffer s k)) = []"
    and "data (snd (read_from_buffer s k)) = []"
    and "eof (snd (read_from_buffer s k))"
  using assms unfolding read_from_buffer_def Let_def
  by (simp_all add: load_buffer_def py_slice_def py_index_def)

lemma read_from_buffer_next_chunk:
  assumes "is_buffer_empty s" and "\<not> eof s" and "data s = c # cs"
  shows "fst (read_from_buffer s k) = (if k < 0 then c else take (nat k) c)"
    and "buffer (snd (read_from_buffer s k)) = c"
    and "data (snd (read_from_buffer s k)) = cs"
    and "\<not> eof (snd (read_from_buffer s k))"
proof -
  define size2 where
    "size2 = (if min k (int (length c)) < 0 then int (length c) else min k (int (length c)))"
  have f: "fst (read_from_buffer s k) = py_slice c (size2 - size2) size2"
    using assms unfolding read_from_buffer_def Let_def
    by (auto simp: load_buffer_def size2_def min_def)
  have rng: "0 \<le> size2" "size2 \<le> int (length c)" by (auto simp: size2_def min_def)
  have "py_slice c 0 size2 = take (nat size2) c"
    using py_slice_in_range[of 0 size2 c] rng by simp
  moreover have "take (nat size2) c = (if k < 0 then c else take (nat k) c)"
    by (auto simp: size2_def min_def)
  ultimately show "fst (read_from_buffer s k) = (if k < 0 then c else take (nat k) c)"
    using f by simp
  show "buffer (snd (read_from_buffer s k)) = c"
    and "data (snd (read_from_buffer s k)) = cs"
    and "\<not> eof (snd (read_from_buffer s k))"
    using assms unfolding read_from_buffer_def Let_def
    by (simp_all add: load_buffer_def)
qed

lemma read1_empty_buffer:
  assumes "read1 s n = Inr (d, s')" and "is_buffer_empty s"
  shows "d = fst (read_from_buffer s n)" and "s' = snd (read_from_buffer s n)"
proof -
  have op: "\<not> closed s" using assms(1) read1_closed[of s n] by auto
  show "d = fst (read_from_buffer s n)" and "s' = snd (read_from_buffer s n)"
    using assms read1_open[OF op, of n] by simp_all
qed

lemma read1_short_buffer:
  assumes "read1 s n = Inr (d, s')" and "cursor_ok s" and "\<not> is_buffer_empty s"
    and "n < 0 \<or> int (length (buffer s)) - buffer_pos s < n"
  shows "\<exists>s1. is_buffer_empty s1 \<and> eof s1 = eof s \<and> data s1 = data s \<and> buffer s1 = buffer s
           \<and> next_calls s1 = next_calls s
           \<and> d = drop (nat (buffer_pos s)) (buffer s)
                 @ fst (read_from_buffer s1 (n - (int (length (buffer s)) - buffer_pos s)))
           \<and> s' = snd (read_from_buffer s1 (n - (int (length (buffer s)) - buffer_pos s)))"
proof -
  have op: "\<not> closed s" using assms(1) read1_closed[of s n] by auto
  define s1 where "s1 = snd (read_from_buffer s n)"
  have len: "int (length (fst (read_from_buffer s n))) = int (length (buffer s)) - buffer_pos s"
    using read_from_buffer_nonempty(1)[OF assms(2,3), of n] assms(4) by auto
  have short: "n < 0 \<or> int (length (fst (read_from_buffer s n))) < n" using len assms(4) by auto
  have res: "d = fst (read_from_buffer s n)
                   @ fst (read_from_buffer s1 (n - (int (length (buffer s)) - buffer_pos s)))"
    "s' = snd (read_from_buffer s1 (n - (int (length (buffer s)) - buffer_pos s)))"
    using assms(1,3) short read1_open[OF op, of n] by (simp_all add: s1_def len)
  have e1: "is_buffer_empty s1"
    unfolding s1_def using read_from_buffer_nonempty(2)[OF assms(2,3), of n] assms(4) by auto
  have k: "eof s1 = eof s" "data s1 = data s" "buffer s1 = buffer s"
    unfolding s1_def using read_from_buffer_keeps_chunk[OF assms(3), of n] by simp_all
  have nc: "next_calls s1 = next_calls s"
    unfolding s1_def using read_from_buffer_next_calls[of s n] assms(3) by simp
  show ?thesis
    using res e1 k nc read_from_buffer_takes_rest[OF assms(2,3,4)] by auto
qed

lemma read1_short_buffer_cases:
  assumes "read1 s n = Inr (d, s')" and "cursor_ok s" and "\<not> is_buffer_empty s"
    and "n < 0 \<or> int (length (buffer s)) - buffer_pos s < n"
  shows "next_calls s' = next_calls s + (if eof s then 0 else 1)"
    and "eof s \<Longrightarrow> d = drop (nat (buffer_pos s)) (buffer s)
                     \<and> buffer s' = buffer s \<and> data s' = data s"
    and "\<not> eof s \<Longrightarrow> data s = [] \<Longrightarrow>
           d = drop (nat (buffer_pos s)) (buffer s) \<and> eof s' \<and> buffer s' = []"
    and "\<not> eof s \<Longrightarrow> data s = c # cs \<Longrightarrow>
           d = drop (nat (buffer_pos s)) (buffer s)
                 @ (if n < 0 then c
                    else take (nat (n - (int (length (buffer s)) - buffer_pos s))) c)
           \<and> buffer s' = c \<and> data s' = cs"
proof -
  define r where "r = n - (int (length (buffer s)) - buffer_pos s)"
  obtain s1 where s1: "is_buffer_empty s1" "eof s1 = eof s" "data s1 = data s"
      "buffer s1 = buffer s" "next_calls s1 = next_calls s"
    and d: "d = drop (nat (buffer_pos s)) (buffer s) @ fst (read_from_buffer s1 r)"
    and s': "s' = snd (read_from_buffer s1 r)"
    using read1_short_buffer[OF assms] unfolding r_def by blast
  have av: "0 < int (length (buffer s)) - buffer_pos s"
    using assms(2,3) by (auto simp: cursor_ok_def is_buffer_empty_def)
  have sign: "(r < 0) = (n < 0)" using av assms(4) by (auto simp: r_def)
  show "next_calls s' = next_calls s + (if eof s then 0 else 1)"
    using read_from_buffer_next_calls[of s1 r] s1 s' by simp
  show "d = drop (nat (buffer_pos s)) (buffer s) \<and> buffer s' = buffer s \<and> data s' = data s"
    if "eof s"
    using that read_from_buffer_at_eof[of s1 r] s1 d s' by simp
  show "d = drop (nat (buffer_pos s)) (buffer s) \<and> eof s' \<and> buffer s' = []"
    if "\<not> eof s" "data s = []"
    using that read_from_buffer_exhausted[of s1 r] s1 d s' by simp
  show "d = drop (nat (buffer_pos s)) (buffer s)
                 @ (if n < 0 then c
                    else take (nat (n - (int (length (buffer s)) - buffer_pos s))) c)
           \<and> buffer s' = c \<and> data s' = cs"
    if "\<not> eof s" "data s = c # cs"
    using that read_from_buffer_next_chunk[of s1 c cs r] s1 d s' sign by (simp add: r_def)
qed

lemma read1_empty_buffer_cases:
  assumes "read1 s n = Inr (d, s')" and "is_buffer_empty s"
  shows "eof s \<Longrightarrow> d = [] \<and> buffer s' = buffer s \<and> data s' = data s"
    and "\<not> eof s \<Longrightarrow> data s = [] \<Longrightarrow> d = [] \<and> eof s' \<and> buffer s' = []"
    and "\<not> eof s \<Longrightarrow> data s = c # cs \<Longrightarrow>
           d = (if n < 0 then c else take (nat n) c) \<and> buffer s' = c \<and> data s' = cs"
proof -
  note r = read1_empty_buffer[OF assms]
  show "d = [] \<and> buffer s' = buffer s \<and> data s' = data s" if "eof s"
    using that read_from_buffer_at_eof[OF assms(2), of n] r by simp
  show "d = [] \<and> eof s' \<and> buffer s' = []" if "\<not> eof s" "data s = []"
    using that read_from_buffer_exhausted[OF assms(2), of n] r by simp
  show "d = (if n < 0 then c else take (nat n) c) \<and> buffer s' = c \<and> data s' = cs"
    if "\<not> eof s" "data s = c # cs"
    using that read_from_buffer_next_chunk[OF assms(2), of c cs n] r by simp
qed

text \<open>
  C8 (as amended). A successful \<open>read1(n)\<close> calls \<open>next\<close> on the generator at most
  once and never calls \<open>fetch\<close>, and for \<open>n \<ge> 0\<close> it returns at most \<open>n\<close> bytes.

  With the buffer empty at the start it calls \<open>next\<close> exactly once, unless \<open>eof\<close> is
  already set, when it calls nothing and returns nothing; it returns nothing and sets \<open>eof\<close>
  when the generator is exhausted, and otherwise the next chunk \<open>c\<close> becomes the buffer and
  the result is \<open>c\<close> for \<open>n < 0\<close>, the first \<open>n\<close> bytes of \<open>c\<close> for \<open>n \<ge> 0\<close>.

  With the buffer not empty at the start (cursor inside the buffer): when \<open>0 \<le> n\<close> and
  the buffer holds at least \<open>n\<close> unread bytes, the result is the next \<open>n\<close> bytes of the
  buffer and \<open>next\<close> is not called. When \<open>n < 0\<close> or the buffer holds fewer than \<open>n\<close>
  unread bytes, the result starts with all the unread bytes of the buffer, and the call then
  calls \<open>next\<close> exactly once, unless \<open>eof\<close> is already set: nothing is appended when
  \<open>eof\<close> is set or the generator is exhausted (which sets \<open>eof\<close>), and otherwise the next
  chunk \<open>c\<close> becomes the buffer and what is appended is \<open>c\<close> for \<open>n < 0\<close>, and for
  \<open>n \<ge> 0\<close> the first bytes of \<open>c\<close> up to the \<open>n\<close> asked for less those taken from the
  buffer.
\<close>

theorem read1_at_most_one_refill:
  assumes "read1 s n = Inr (d, s')"
  shows "next_calls s' \<le> next_calls s + 1
       \<and> fetch_log s' = fetch_log s
       \<and> (0 \<le> n \<longrightarrow> int (length d) \<le> n)
       \<and> (is_buffer_empty s \<longrightarrow>
             next_calls s' = next_calls s + (if eof s then 0 else 1)
             \<and> (eof s \<longrightarrow> d = [] \<and> buffer s' = buffer s \<and> data s' = data s)
             \<and> (\<not> eof s \<and> data s = [] \<longrightarrow> d = [] \<and> eof s' \<and> buffer s' = [])
             \<and> (\<not> eof s \<and> data s = c # cs \<longrightarrow>
                   d = (if n < 0 then c else take (nat n) c)
                   \<and> buffer s' = c \<and> data s' = cs))
       \<and> (cursor_ok s \<and> \<not> is_buffer_empty s \<and> 0 \<le> n
            \<and> n \<le> int (length (buffer s)) - buffer_pos s \<longrightarrow>
              next_calls s' = next_calls s \<and> buffer s' = buffer s \<and> data s' = data s
              \<and> d = take (nat n) (drop (nat (buffer_pos s)) (buffer s)))
       \<and> (cursor_ok s \<and> \<not> is_buffer_empty s
            \<and> (n < 0 \<or> int (length (buffer s)) - buffer_pos s < n) \<longrightarrow>
              next_calls s' = next_calls s + (if eof s then 0 else 1)
              \<and> (eof s \<longrightarrow> d = drop (nat (buffer_pos s)) (buffer s)
                      \<and> buffer s' = buffer s \<and> data s' = data s)
              \<and> (\<not> eof s \<and> data s = [] \<longrightarrow>
                    d = drop (nat (buffer_pos s)) (buffer s) \<and> eof s' \<and> buffer s' = [])
              \<and> (\<not> eof s \<and> data s = c # cs \<longrightarrow>
                    d = drop (nat (buffer_pos s)) (buffer s)
                          @ (if n < 0 then c
                             else take (nat (n - (int (length (buffer s)) - buffer_pos s))) c)
                    \<and> buffer s' = c \<and> data s' = cs))"
proof -
  have general: "next_calls s' \<le> next_calls s + 1 \<and> fetch_log s' = fetch_log s
       \<and> (0 \<le> n \<longrightarrow> int (length d) \<le> n)"
    using read1_next_calls(1,2)[OF assms] read1_capped[OF assms] by blast
  have empty: "is_buffer_empty s \<longrightarrow>
             next_calls s' = next_calls s + (if eof s then 0 else 1)
             \<and> (eof s \<longrightarrow> d = [] \<and> buffer s' = buffer s \<and> data s' = data s)
             \<and> (\<not> eof s \<and> data s = [] \<longrightarrow> d = [] \<and> eof s' \<and> buffer s' = [])
             \<and> (\<not> eof s \<and> data s = c # cs \<longrightarrow>
                   d = (if n < 0 then c else take (nat n) c)
                   \<and> buffer s' = c \<and> data s' = cs)"
    using read1_next_calls(3)[OF assms] read1_empty_buffer_cases[OF assms] by blast
  have held: "cursor_ok s \<and> \<not> is_buffer_empty s \<and> 0 \<le> n
            \<and> n \<le> int (length (buffer s)) - buffer_pos s \<longrightarrow>
              next_calls s' = next_calls s \<and> buffer s' = buffer s \<and> data s' = data s
              \<and> d = take (nat n) (drop (nat (buffer_pos s)) (buffer s))"
    using read1_from_buffer_only[OF assms] by blast
  have short: "cursor_ok s \<and> \<not> is_buffer_empty s
            \<and> (n < 0 \<or> int (length (buffer s)) - buffer_pos s < n) \<longrightarrow>
              next_calls s' = next_calls s + (if eof s then 0 else 1)
              \<and> (eof s \<longrightarrow> d = drop (nat (buffer_pos s)) (buffer s)
                      \<and> buffer s' = buffer s \<and> data s' = data s)
              \<and> (\<not> eof s \<and> data s = [] \<longrightarrow>
                    d = drop (nat (buffer_pos s)) (buffer s) \<and> eof s' \<and> buffer s' = [])
              \<and> (\<not> eof s \<and> data s = c # cs \<longrightarrow>
                    d = drop (nat (buffer_pos s)) (buffer s)
                          @ (if n < 0 then c
                             else take (nat (n - (int (length (buffer s)) - buffer_pos s))) c)
                    \<and> buffer s' = c \<and> data s' = cs)"
    using read1_short_buffer_cases[OF assms] by blast
  from general empty held short show ?thesis by blast
qed

lemma part_step2:
  "read_from_buffer partly_read_file 3 = ([2], partly_read_file\<lparr>buffer_pos := 2, pos := 2\<rparr>)"
  unfolding read_from_buffer_def Let_def
  by (simp add: partly_read_file_def is_buffer_empty_def py_slice_def py_index_def)

lemma part_step3:
  "read_from_buffer (partly_read_file\<lparr>buffer_pos := 2, pos := 2\<rparr>) 2 = ([3], refilled_file)"
  unfolding read_from_buffer_def Let_def
  by (simp add: partly_read_file_def refilled_file_def is_buffer_empty_def load_buffer_def
      py_slice_def py_index_def)

lemma read1_partly_read_file: "read1 partly_read_file 3 = Inr ([2, 3], refilled_file)"
proof -
  have "\<not> closed partly_read_file" "\<not> is_buffer_empty partly_read_file"
    by (simp_all add: partly_read_file_def is_buffer_empty_def)
  then show ?thesis
    by (simp add: read1_open part_step2 part_step3)
qed

lemma read1_partly_read_file_short:
  "read1 partly_read_file 1 = Inr ([2], partly_read_file\<lparr>buffer_pos := 2, pos := 2\<rparr>)"
proof -
  have "read_from_buffer partly_read_file 1 = ([2], partly_read_file\<lparr>buffer_pos := 2, pos := 2\<rparr>)"
    unfolding read_from_buffer_def Let_def
    by (simp add: partly_read_file_def is_buffer_empty_def py_slice_def py_index_def)
  moreover have "\<not> closed partly_read_file" by (simp add: partly_read_file_def)
  ultimately show ?thesis by (simp add: read1_open)
qed

lemma read1_drained_file: "read1 drained_file 5 = Inr ([], drained_file)"
proof -
  have "read_from_buffer drained_file 5 = ([], drained_file)"
    unfolding read_from_buffer_def Let_def
    by (simp add: drained_file_def is_buffer_empty_def load_buffer_def py_slice_def py_index_def)
  moreover have "\<not> closed drained_file" "is_buffer_empty drained_file"
    by (simp_all add: drained_file_def is_buffer_empty_def)
  ultimately show ?thesis by (simp add: read1_open)
qed

text \<open>
  The file with one unread byte \<open>2\<close> in its buffer and the chunk \<open>[3]\<close> still to come:
  \<open>read1(3)\<close> returns the byte held followed by the chunk.
\<close>

theorem read1_at_most_one_refill_witness:
  "read1 partly_read_file 3 = Inr ([2, 3], refilled_file)
   \<and> cursor_ok partly_read_file \<and> \<not> is_buffer_empty partly_read_file
   \<and> \<not> eof partly_read_file \<and> data partly_read_file = [[3]]
   \<and> drop (nat (buffer_pos partly_read_file)) (buffer partly_read_file) = [2]
   \<and> [2, 3] = drop (nat (buffer_pos partly_read_file)) (buffer partly_read_file)
                @ take (nat (3 - (int (length (buffer partly_read_file))
                                    - buffer_pos partly_read_file))) [3]
   \<and> next_calls refilled_file = next_calls partly_read_file + 1
   \<and> next_calls refilled_file \<le> next_calls partly_read_file + 1
   \<and> fetch_log refilled_file = fetch_log partly_read_file
   \<and> buffer refilled_file = [3] \<and> data refilled_file = []"
proof -
  have h: "cursor_ok partly_read_file" "\<not> is_buffer_empty partly_read_file"
    "\<not> eof partly_read_file" "data partly_read_file = [3] # []"
    "(3::int) < 0 \<or> int (length (buffer partly_read_file)) - buffer_pos partly_read_file < 3"
    by (simp_all add: cursor_ok_def is_buffer_empty_def partly_read_file_def)
  have rest: "drop (nat (buffer_pos partly_read_file)) (buffer partly_read_file) = [2]"
    by (simp add: partly_read_file_def)
  have pos3: "\<not> (3::int) < 0" by simp
  from read1_at_most_one_refill [OF read1_partly_read_file, of "[3]" "[]"] h
  have a: "next_calls refilled_file = next_calls partly_read_file + (if eof partly_read_file then 0 else 1)"
    and b: "next_calls refilled_file \<le> next_calls partly_read_file + 1"
    and c: "fetch_log refilled_file = fetch_log partly_read_file"
    and d: "[2, 3] = drop (nat (buffer_pos partly_read_file)) (buffer partly_read_file)
                @ (if (3::int) < 0 then [3]
                   else take (nat (3 - (int (length (buffer partly_read_file))
                                          - buffer_pos partly_read_file))) [3])"
    and e: "buffer refilled_file = [3]" "data refilled_file = []"
    by blast+
  from a h(3) have a': "next_calls refilled_file = next_calls partly_read_file + 1" by simp
  from d pos3 have d': "[2, 3] = drop (nat (buffer_pos partly_read_file)) (buffer partly_read_file)
                @ take (nat (3 - (int (length (buffer partly_read_file))
                                    - buffer_pos partly_read_file))) [3]"
    by simp
  from h(1,2,3) have h': "cursor_ok partly_read_file \<and> \<not> is_buffer_empty partly_read_file
      \<and> \<not> eof partly_read_file" by blast
  have dt: "data partly_read_file = [[3]]" using h(4) by simp
  show ?thesis
    using read1_partly_read_file h' dt rest d' a' b c e by blast
qed

text \<open>
  C8 as stated fails in both of its cases. With unread bytes in the buffer, \<open>read1(3)\<close>
  takes the one byte left and then pulls the next chunk from the generator. With the
  buffer empty and \<open>eof\<close> set, \<open>read1(5)\<close> refills nothing.
\<close>

theorem read1_refill_counterexample:
  "\<not> is_buffer_empty partly_read_file
   \<and> read1 partly_read_file 3 = Inr ([2, 3], refilled_file)
   \<and> next_calls refilled_file = next_calls partly_read_file + 1
   \<and> data refilled_file \<noteq> data partly_read_file
   \<and> is_buffer_empty drained_file
   \<and> read1 drained_file 5 = Inr ([], drained_file)"
  using read1_partly_read_file read1_drained_file
  by (simp add: is_buffer_empty_def partly_read_file_def refilled_file_def drained_file_def)

section \<open>Preservation of the state invariants\<close>

lemma read_open:
  "\<not> closed s \<Longrightarrow> read s n = Inr (read_loop (if n = 0 then - 1 else n) [] s)"
  by (simp add: read_def ensure_not_closed_def)

lemma read_closed: "closed s \<Longrightarrow> read s n = Inl (ValueError closed_msg)"
  by (simp add: read_def ensure_not_closed_def)

lemma read_cursor_ok:
  assumes "read s n = Inr (d, s')" and "cursor_ok s"
  shows "cursor_ok s' \<and> pos s \<le> pos s'"
proof -
  have op: "\<not> closed s" using assms(1) read_closed[of s n] by auto
  then have "s' = snd (read_loop (if n = 0 then - 1 else n) [] s)"
    using assms(1) by (simp add: read_open)
  then show ?thesis using read_loop_cursor_ok[OF assms(2)] by simp
qed

lemma seek_cursor_ok:
  assumes "seek s offset whence = Inr (p, s')" and "cursor_ok s"
  shows "cursor_ok s' \<and> pos s' = p \<and> p = (if whence = SEEK_SET then offset else pos s + offset)"
  using assms
  by (auto simp: seek_def seek_to_def ensure_not_closed_def cursor_ok_def Let_def
      split: if_splits)

lemma readinto1_open:
  "\<not> closed s \<Longrightarrow> readinto1 s b =
     (case read1 s (int (length b)) of
        Inl e \<Rightarrow> Inl e
      | Inr (d, s') \<Rightarrow> Inr (int (length d), py_assign_prefix b (int (length d)) d, s'))"
  by (simp add: readinto1_def ensure_not_closed_def)

lemma readinto1_closed: "closed s \<Longrightarrow> readinto1 s b = Inl (ValueError closed_msg)"
  by (simp add: readinto1_def ensure_not_closed_def)

lemma read1_succeeds: "\<not> closed s \<Longrightarrow> \<exists>d s'. read1 s n = Inr (d, s')"
  by (simp add: read1_open)

lemma py_assign_prefix_short:
  "length d \<le> length b \<Longrightarrow> py_assign_prefix b (int (length d)) d = d @ drop (length d) b"
  by (simp add: py_assign_prefix_def py_index_def min_def)

lemma readinto1_cursor_ok:
  assumes "readinto1 s b = Inr (k, b', s')" and "cursor_ok s"
  shows "cursor_ok s' \<and> pos s \<le> pos s'"
proof -
  have op: "\<not> closed s" using assms(1) readinto1_closed[of s b] by auto
  obtain d s1 where r: "read1 s (int (length b)) = Inr (d, s1)"
    using read1_succeeds[OF op] by blast
  then have "s' = s1" using assms(1) by (simp add: readinto1_open[OF op])
  then show ?thesis using read1_cursor_ok[OF r assms(2)] by simp
qed

text \<open>
  C9 (as amended). From every state whose cursor lies inside the buffer, whatever its
  position, every operation that succeeds leaves the cursor inside the buffer. \<open>read\<close>,
  \<open>read1\<close> and \<open>readinto1\<close> never move the position backwards, so they leave a position
  that is not negative not negative; \<open>close\<close> keeps the position and \<open>tell\<close> returns it and
  changes nothing. A successful \<open>seek\<close> sets the position to its target, \<open>offset\<close> or
  \<open>pos + offset\<close>, so it keeps the position not negative exactly when its target is not
  negative. The fresh file satisfies both invariants.
\<close>

theorem operations_keep_cursor_in_buffer:
  assumes "cursor_ok s"
  shows "(\<forall>d s'. read s n = Inr (d, s') \<longrightarrow>
            cursor_ok s' \<and> pos s \<le> pos s' \<and> (0 \<le> pos s \<longrightarrow> 0 \<le> pos s'))
       \<and> (\<forall>d s'. read1 s n = Inr (d, s') \<longrightarrow>
            cursor_ok s' \<and> pos s \<le> pos s' \<and> (0 \<le> pos s \<longrightarrow> 0 \<le> pos s'))
       \<and> (\<forall>k b' s'. readinto1 s b = Inr (k, b', s') \<longrightarrow>
            cursor_ok s' \<and> pos s \<le> pos s' \<and> (0 \<le> pos s \<longrightarrow> 0 \<le> pos s'))
       \<and> (\<forall>p s'. seek s offset whence = Inr (p, s') \<longrightarrow>
             cursor_ok s' \<and> pos s' = p
             \<and> p = (if whence = SEEK_SET then offset else pos s + offset))
       \<and> cursor_ok (close s) \<and> pos (close s) = pos s
       \<and> (\<forall>p. tell s = Inr p \<longrightarrow> p = pos s)
       \<and> cursor_ok (init f) \<and> 0 \<le> pos (init f)"
proof -
  have r: "\<forall>d s'. read s n = Inr (d, s') \<longrightarrow>
            cursor_ok s' \<and> pos s \<le> pos s' \<and> (0 \<le> pos s \<longrightarrow> 0 \<le> pos s')"
    using read_cursor_ok[OF _ assms] by fastforce
  have r1: "\<forall>d s'. read1 s n = Inr (d, s') \<longrightarrow>
            cursor_ok s' \<and> pos s \<le> pos s' \<and> (0 \<le> pos s \<longrightarrow> 0 \<le> pos s')"
    using read1_cursor_ok[OF _ assms] by fastforce
  have ri: "\<forall>k b' s'. readinto1 s b = Inr (k, b', s') \<longrightarrow>
            cursor_ok s' \<and> pos s \<le> pos s' \<and> (0 \<le> pos s \<longrightarrow> 0 \<le> pos s')"
    using readinto1_cursor_ok[OF _ assms] by fastforce
  have sk: "\<forall>p s'. seek s offset whence = Inr (p, s') \<longrightarrow>
             cursor_ok s' \<and> pos s' = p
             \<and> p = (if whence = SEEK_SET then offset else pos s + offset)"
    using seek_cursor_ok[OF _ assms] by blast
  have cl: "cursor_ok (close s) \<and> pos (close s) = pos s"
    using assms by (simp add: close_def cursor_ok_def)
  have tl: "\<forall>p. tell s = Inr p \<longrightarrow> p = pos s"
    by (auto simp: tell_def ensure_not_closed_def split: if_splits)
  have ini: "cursor_ok (init f) \<and> 0 \<le> pos (init f)"
    by (simp add: init_def cursor_ok_def)
  from r r1 ri sk cl tl ini show ?thesis by blast
qed

lemma negative_seek_state:
  "seek_to (init demo_fetch) (- 1)
     = \<lparr>data = [], buffer = [], buffer_pos = 0, pos = - 1, eof = False,
         closed = False, fetch = demo_fetch, fetch_log = [0, - 1], next_calls = 0\<rparr>"
  by (simp add: seek_to_def init_def demo_fetch_def Let_def)

lemma read1_after_negative_seek:
  "read1 (seek_to (init demo_fetch) (- 1)) 1
     = Inr ([], \<lparr>data = [], buffer = [], buffer_pos = 0, pos = - 1, eof = True,
                  closed = False, fetch = demo_fetch, fetch_log = [0, - 1], next_calls = 1\<rparr>)"
proof -
  have "read_from_buffer \<lparr>data = [], buffer = [], buffer_pos = 0, pos = - 1, eof = False,
         closed = False, fetch = demo_fetch, fetch_log = [0, - 1], next_calls = 0\<rparr> 1
      = ([], \<lparr>data = [], buffer = [], buffer_pos = 0, pos = - 1, eof = True,
                  closed = False, fetch = demo_fetch, fetch_log = [0, - 1], next_calls = 1\<rparr>)"
    unfolding read_from_buffer_def Let_def
    by (simp add: is_buffer_empty_def load_buffer_def py_slice_def py_index_def)
  then show ?thesis
    unfolding negative_seek_state by (simp add: read1_open is_buffer_empty_def)
qed

text \<open>
  Two instances: \<open>read1(3)\<close> on the file with one unread byte, and \<open>read1(1)\<close> on the state
  that \<open>seek(-1)\<close> leaves, whose position is negative.
\<close>

theorem operations_keep_cursor_in_buffer_witness:
  "cursor_ok partly_read_file
   \<and> read1 partly_read_file 3 = Inr ([2, 3], refilled_file)
   \<and> cursor_ok refilled_file \<and> pos partly_read_file \<le> pos refilled_file
   \<and> cursor_ok (seek_to (init demo_fetch) (- 1))
   \<and> pos (seek_to (init demo_fetch) (- 1)) < 0
   \<and> read1 (seek_to (init demo_fetch) (- 1)) 1
       = Inr ([], \<lparr>data = [], buffer = [], buffer_pos = 0, pos = - 1, eof = True,
                    closed = False, fetch = demo_fetch, fetch_log = [0, - 1], next_calls = 1\<rparr>)
   \<and> cursor_ok \<lparr>data = [], buffer = [], buffer_pos = 0, pos = - 1, eof = True,
                 closed = False, fetch = demo_fetch, fetch_log = [0, - 1], next_calls = 1\<rparr>"
proof -
  have h: "cursor_ok partly_read_file"
    by (simp add: cursor_ok_def partly_read_file_def)
  have g: "cursor_ok (seek_to (init demo_fetch) (- 1))"
    "pos (seek_to (init demo_fetch) (- 1)) < 0"
    by (simp_all add: cursor_ok_def negative_seek_state)
  from operations_keep_cursor_in_buffer [OF h, of 3] read1_partly_read_file
  have a: "cursor_ok refilled_file \<and> pos partly_read_file \<le> pos refilled_file" by blast
  from operations_keep_cursor_in_buffer [OF g(1), of 1] read1_after_negative_seek
  have b: "cursor_ok \<lparr>data = [], buffer = [], buffer_pos = 0, pos = - 1, eof = True,
                 closed = False, fetch = demo_fetch, fetch_log = [0, - 1], next_calls = 1\<rparr>"
    by blast
  from h read1_partly_read_file a g read1_after_negative_seek b show ?thesis by blast
qed

text \<open>
  C9 as stated fails for the position: \<open>seek(-1)\<close> on a fresh file is accepted and
  leaves the position at -1.
\<close>

theorem seek_negative_counterexample:
  "cursor_ok (init demo_fetch) \<and> 0 \<le> pos (init demo_fetch)
   \<and> seek (init demo_fetch) (- 1) SEEK_SET = Inr (- 1, seek_to (init demo_fetch) (- 1))
   \<and> pos (seek_to (init demo_fetch) (- 1)) = - 1
   \<and> \<not> 0 \<le> pos (seek_to (init demo_fetch) (- 1))"
  by (simp add: seek_def seek_to_def ensure_not_closed_def SEEK_SET_def init_def cursor_ok_def)

section \<open>\<open>readinto1\<close>\<close>

text \<open>
  C10. On an open file, \<open>readinto1(b)\<close> returns the number \<open>k\<close> of bytes that
  \<open>read1(len(b))\<close> returns, which is at most \<open>len(b)\<close>; afterwards the first \<open>k\<close>
  elements of \<open>b\<close> are those bytes, the elements from index \<open>k\<close> on are as before,
  the length of \<open>b\<close> is unchanged, and the file is in the state \<open>read1\<close> leaves.
\<close>

theorem readinto1_fills_prefix:
  assumes "\<not> closed s"
  shows "\<exists>d s'. read1 s (int (length b)) = Inr (d, s') \<and> length d \<le> length b
           \<and> readinto1 s b = Inr (int (length d), d @ drop (length d) b, s')
           \<and> take (length d) (d @ drop (length d) b) = d
           \<and> drop (length d) (d @ drop (length d) b) = drop (length d) b
           \<and> length (d @ drop (length d) b) = length b"
proof -
  obtain d s' where r: "read1 s (int (length b)) = Inr (d, s')"
    using read1_succeeds[OF assms] by blast
  have len: "length d \<le> length b" using read1_capped[OF r] by simp
  have "readinto1 s b = Inr (int (length d), d @ drop (length d) b, s')"
    using r py_assign_prefix_short[OF len] by (simp add: readinto1_open[OF assms])
  then show ?thesis using r len by auto
qed

theorem readinto1_fills_prefix_witness:
  "\<not> closed partly_read_file
   \<and> readinto1 partly_read_file [9, 9, 9] = Inr (2, [2, 3, 9], refilled_file)"
proof -
  have h: "\<not> closed partly_read_file" by (simp add: partly_read_file_def)
  from readinto1_fills_prefix [OF h, of "[9, 9, 9]"]
  obtain d s' where a: "read1 partly_read_file (int (length [9, 9, 9 :: byte])) = Inr (d, s')"
    and b: "readinto1 partly_read_file [9, 9, 9]
              = Inr (int (length d), d @ drop (length d) [9, 9, 9], s')"
    by blast
  have "int (length [9, 9, 9 :: byte]) = 3" by simp
  with a read1_partly_read_file have "d = [2, 3]" "s' = refilled_file" by simp_all
  with b h show ?thesis by simp
qed

section \<open>Directory listing\<close>

lemma ls_inner_swallow:
  "ls c (pathspec_path entry) (max_depth - 1) = Inl (NotDirectoryError cid p) \<Longrightarrow>
   ls_inner c (entry # rest) max_depth inner = ls_inner c rest max_depth inner"
  by simp

lemma ls_inner_append_sub:
  "ls c (pathspec_path entry) (max_depth - 1) = Inr sub \<Longrightarrow>
   ls_inner c (entry # rest) max_depth inner = ls_inner c rest max_depth (inner @ sub)"
  by simp

lemma ls_inner_tolerated:
  "tolerated c max_depth entry \<Longrightarrow>
   ls_inner c (entry # rest) max_depth inner
     = ls_inner c rest max_depth (inner @ sub_entries c max_depth entry)"
  by (auto simp: tolerated_def sub_entries_def split: sum.splits vfs_error.splits)

lemma ls_inner_propagate:
  "ls c (pathspec_path entry) (max_depth - 1) = Inl err \<Longrightarrow>
   \<not> tolerated c max_depth entry \<Longrightarrow>
   ls_inner c (entry # rest) max_depth inner = Inl err"
  by (auto simp: tolerated_def split: vfs_error.splits)

lemma ls_inner_success:
  "ls_inner c es max_depth inner = Inr result \<Longrightarrow>
   result = inner @ concat (map (sub_entries c max_depth) es)
   \<and> (\<forall>entry \<in> set es. tolerated c max_depth entry)"
proof (induction es arbitrary: inner)
  case Nil
  then show ?case by simp
next
  case (Cons entry es)
  show ?case
  proof (cases "tolerated c max_depth entry")
    case True
    then show ?thesis using Cons.prems Cons.IH[of "inner @ sub_entries c max_depth entry"]
      by (simp add: ls_inner_tolerated del: ls_inner.simps)
  next
    case False
    then obtain err where "ls c (pathspec_path entry) (max_depth - 1) = Inl err"
      by (auto simp: tolerated_def split: sum.splits)
    then show ?thesis using Cons.prems False ls_inner_propagate[of c entry max_depth err]
      by (simp del: ls_inner.simps)
  qed
qed

lemma ls_inner_first_failure:
  "\<forall>x \<in> set pre. tolerated c max_depth x \<Longrightarrow>
   ls c (pathspec_path entry) (max_depth - 1) = Inl err \<Longrightarrow>
   \<not> tolerated c max_depth entry \<Longrightarrow>
   ls_inner c (pre @ entry # post) max_depth inner = Inl err"
proof (induction pre arbitrary: inner)
  case Nil
  then show ?case using ls_inner_propagate by simp
next
  case (Cons x pre)
  then show ?case by (simp add: ls_inner_tolerated del: ls_inner.simps)
qed

lemma ls_inner_all_tolerated:
  "\<forall>x \<in> set es. tolerated c max_depth x \<Longrightarrow>
   ls_inner c es max_depth inner = Inr (inner @ concat (map (sub_entries c max_depth) es))"
proof (induction es arbitrary: inner)
  case Nil
  then show ?case by simp
next
  case (Cons x es)
  then show ?case by (simp add: ls_inner_tolerated del: ls_inner.simps)
qed

lemma ls_directory:
  "1 \<le> max_depth \<Longrightarrow> File_Get c (get_vfs_path path) = Inr f \<Longrightarrow> is_directory f \<Longrightarrow>
   ListFiles f = Inr stat_entries \<Longrightarrow>
   ls c path max_depth =
     (case ls_inner c stat_entries max_depth [] of
        Inl err \<Rightarrow> Inl err
      | Inr inner_entries \<Rightarrow> Inr (stat_entries @ inner_entries))"
  by (subst ls.simps) simp

lemma ls_shallow: "max_depth < 1 \<Longrightarrow> ls c path max_depth = Inr []"
  by (subst ls.simps) simp

lemma ls_not_directory:
  "1 \<le> max_depth \<Longrightarrow> File_Get c (get_vfs_path path) = Inr f \<Longrightarrow> \<not> is_directory f \<Longrightarrow>
   ls c path max_depth = Inl (NotDirectoryError (client_id c) path)"
  by (subst ls.simps) simp

lemma ls_get_denied:
  "1 \<le> max_depth \<Longrightarrow> File_Get c (get_vfs_path path) = Inl (AccessForbiddenError e) \<Longrightarrow>
   ls c path max_depth = Inl (ApprovalMissingError (client_id c) (AccessForbiddenError e))"
  by (subst ls.simps) simp

lemma ls_list_denied:
  "1 \<le> max_depth \<Longrightarrow> File_Get c (get_vfs_path path) = Inr f \<Longrightarrow> is_directory f \<Longrightarrow>
   ListFiles f = Inl (AccessForbiddenError e) \<Longrightarrow>
   ls c path max_depth = Inl (ApprovalMissingError (client_id c) (AccessForbiddenError e))"
  by (subst ls.simps) simp

lemma ls_success_shape:
  assumes "ls c path max_depth = Inr result" and "1 \<le> max_depth"
  shows "\<exists>f stat_entries. File_Get c (get_vfs_path path) = Inr f \<and> is_directory f
           \<and> ListFiles f = Inr stat_entries
           \<and> ls_inner c stat_entries max_depth [] = Inr (drop (length stat_entries) result)
           \<and> take (length stat_entries) result = stat_entries"
  using assms
  by (subst (asm) ls.simps) (auto split: sum.splits api_error.splits if_splits)

lemma entry_paths:
  "pathspec_path entry_A = ''/r/A''" "pathspec_path entry_B = ''/r/B''"
  "pathspec_path entry_F = ''/r/F''" "pathspec_path entry_a1 = ''/r/A/a1''"
  "pathspec_path entry_b1 = ''/r/B/b1''"
  by (simp_all add: entry_A_def entry_B_def entry_F_def entry_a1_def entry_b1_def)

lemma demo_client_get:
  "File_Get demo_client (get_vfs_path ''/r'')
     = Inr \<lparr>is_directory = True, ListFiles = Inr [entry_A, entry_B, entry_F]\<rparr>"
  "File_Get demo_client (get_vfs_path ''/r/A'')
     = Inr \<lparr>is_directory = True, ListFiles = Inr [entry_a1]\<rparr>"
  "File_Get demo_client (get_vfs_path ''/r/B'')
     = Inr \<lparr>is_directory = True, ListFiles = Inr [entry_b1]\<rparr>"
  "File_Get demo_client (get_vfs_path ''/r/F'') = Inr plain_file"
  "client_id demo_client = ''C.1''"
  by (simp_all add: demo_client_def get_vfs_path_def)

lemma locked_client_get:
  "File_Get locked_client (get_vfs_path ''/r'')
     = Inr \<lparr>is_directory = True, ListFiles = Inr [entry_F, entry_B, entry_A]\<rparr>"
  "File_Get locked_client (get_vfs_path ''/r/B'') = Inl (AccessForbiddenError ''no approval'')"
  "File_Get locked_client (get_vfs_path ''/r/F'') = Inr plain_file"
  "client_id locked_client = ''C.1''"
  by (simp_all add: locked_client_def get_vfs_path_def)

lemma ls_demo_A: "ls demo_client ''/r/A'' 1 = Inr [entry_a1]"
  by (subst ls.simps) (simp add: demo_client_get entry_paths ls_shallow)

lemma ls_demo_B: "ls demo_client ''/r/B'' 1 = Inr [entry_b1]"
  by (subst ls.simps) (simp add: demo_client_get entry_paths ls_shallow)

lemma ls_demo_F: "ls demo_client ''/r/F'' 1 = Inl (NotDirectoryError ''C.1'' ''/r/F'')"
  by (subst ls.simps) (simp add: demo_client_get plain_file_def)

lemma ls_demo_root:
  "ls demo_client ''/r'' 2 = Inr [entry_A, entry_B, entry_F, entry_a1, entry_b1]"
  by (subst ls.simps) (simp add: demo_client_get entry_paths ls_demo_A ls_demo_B ls_demo_F)

lemma ls_locked_F: "ls locked_client ''/r/F'' 1 = Inl (NotDirectoryError ''C.1'' ''/r/F'')"
  by (subst ls.simps) (simp add: locked_client_get plain_file_def)

lemma ls_locked_B:
  "ls locked_client ''/r/B'' 1
     = Inl (ApprovalMissingError ''C.1'' (AccessForbiddenError ''no approval''))"
  by (subst ls.simps) (simp add: locked_client_get)

text \<open>
  C2 (amended). A listing that succeeds with \<open>max_depth < 1\<close> is empty. One that succeeds with
  \<open>1 \<le> max_depth\<close> is the list of the immediate children, in the order of \<open>ListFiles\<close>,
  followed by the listings of the children at depth \<open>max_depth - 1\<close>, one after another in child
  order; a child that is not a directory adds nothing. All immediate children come before any
  descendant of a child: the order is level by level, not pre-order.
\<close>

theorem ls_children_then_descendants:
  assumes "ls c path max_depth = Inr result"
  shows "(max_depth < 1 \<longrightarrow> result = [])
       \<and> (1 \<le> max_depth \<longrightarrow>
            (\<exists>f stat_entries. File_Get c (get_vfs_path path) = Inr f \<and> is_directory f
               \<and> ListFiles f = Inr stat_entries
               \<and> result = stat_entries
                    @ concat (map (sub_entries c max_depth) stat_entries)))"
proof (intro conjI impI)
  assume "max_depth < 1"
  then show "result = []" using assms by (simp add: ls_shallow)
next
  assume d: "1 \<le> max_depth"
  from ls_success_shape[OF assms d] obtain f stat_entries where
    f: "File_Get c (get_vfs_path path) = Inr f" "is_directory f" "ListFiles f = Inr stat_entries"
    and inner: "ls_inner c stat_entries max_depth [] = Inr (drop (length stat_entries) result)"
    and outer: "take (length stat_entries) result = stat_entries"
    by blast
  from ls_inner_success[OF inner]
  have "drop (length stat_entries) result = concat (map (sub_entries c max_depth) stat_entries)"
    by simp
  with outer have "result = stat_entries @ concat (map (sub_entries c max_depth) stat_entries)"
    by (metis append_take_drop_id)
  with f show "\<exists>f stat_entries. File_Get c (get_vfs_path path) = Inr f \<and> is_directory f
               \<and> ListFiles f = Inr stat_entries
               \<and> result = stat_entries
                    @ concat (map (sub_entries c max_depth) stat_entries)"
    by blast
qed

text \<open>The sample tree at depth 2.\<close>

theorem ls_children_then_descendants_witness:
  "ls demo_client ''/r'' 2 = Inr [entry_A, entry_B, entry_F, entry_a1, entry_b1]
   \<and> [entry_A, entry_B, entry_F, entry_a1, entry_b1]
       = [entry_A, entry_B, entry_F]
           @ concat (map (sub_entries demo_client 2) [entry_A, entry_B, entry_F])"
proof -
  from ls_children_then_descendants [OF ls_demo_root]
  obtain f stat_entries where
    "File_Get demo_client (get_vfs_path ''/r'') = Inr f" "ListFiles f = Inr stat_entries"
    "[entry_A, entry_B, entry_F, entry_a1, entry_b1]
       = stat_entries @ concat (map (sub_entries demo_client 2) stat_entries)"
    by auto
  then show ?thesis using ls_demo_root by (auto simp: demo_client_get(1))
qed

text \<open>
  C2 as stated fails on the sample tree: \<open>A\<close> is followed by its sibling \<open>B\<close>, and the entry
  \<open>a1\<close> of the subtree of \<open>A\<close> comes after \<open>B\<close> and \<open>F\<close>; the pre-order sequence
  \<open>A, a1, B, b1, F\<close> is not what \<open>ls\<close> returns.
\<close>

theorem ls_preorder_counterexample:
  "ls demo_client ''/r'' 2 = Inr [entry_A, entry_B, entry_F, entry_a1, entry_b1]
   \<and> ls demo_client ''/r/A'' 1 = Inr [entry_a1]
   \<and> ls demo_client ''/r'' 2 \<noteq> Inr [entry_A, entry_a1, entry_B, entry_b1, entry_F]"
  using ls_demo_root ls_demo_A
  by (simp add: entry_A_def entry_B_def entry_F_def entry_a1_def entry_b1_def)

lemma tolerated_not_directory:
  "ls c (pathspec_path entry) (max_depth - 1) = Inl (NotDirectoryError cid p) \<Longrightarrow>
   tolerated c max_depth entry \<and> sub_entries c max_depth entry = []"
  by (simp add: tolerated_def sub_entries_def)

lemma approval_missing_not_tolerated:
  "ls c (pathspec_path entry) (max_depth - 1) = Inl (ApprovalMissingError cid e) \<Longrightarrow>
   \<not> tolerated c max_depth entry"
  by (simp add: tolerated_def)

lemma ls_child_denied:
  assumes "1 \<le> max_depth" "File_Get c (get_vfs_path path) = Inr f" "is_directory f"
    and "ListFiles f = Inr (pre @ entry # post)"
    and "\<forall>x \<in> set pre. tolerated c max_depth x"
    and "ls c (pathspec_path entry) (max_depth - 1) = Inl (ApprovalMissingError cid e)"
  shows "ls c path max_depth = Inl (ApprovalMissingError cid e)"
proof -
  from assms(6) have "\<not> tolerated c max_depth entry" by (rule approval_missing_not_tolerated)
  with assms(5,6)
  have "ls_inner c (pre @ entry # post) max_depth [] = Inl (ApprovalMissingError cid e)"
    by (rule ls_inner_first_failure)
  then show ?thesis using ls_directory[OF assms(1-4)] by simp
qed

lemma ls_children_tolerated:
  assumes "1 \<le> max_depth" "File_Get c (get_vfs_path path) = Inr f" "is_directory f"
    and "ListFiles f = Inr stat_entries"
    and "\<forall>x \<in> set stat_entries. tolerated c max_depth x"
  shows "ls c path max_depth
           = Inr (stat_entries @ concat (map (sub_entries c max_depth) stat_entries))"
  using ls_directory[OF assms(1-4)] ls_inner_all_tolerated[OF assms(5), of "[]"] by simp

lemma ls_success_no_denied_child:
  assumes "ls c path max_depth = Inr result" "1 \<le> max_depth"
    and "File_Get c (get_vfs_path path) = Inr f" "ListFiles f = Inr stat_entries"
    and "x \<in> set stat_entries"
  shows "ls c (pathspec_path x) (max_depth - 1) \<noteq> Inl (ApprovalMissingError cid e)"
proof -
  from ls_success_shape[OF assms(1,2)] assms(3,4)
  obtain r where "ls_inner c stat_entries max_depth [] = Inr r" by auto
  from ls_inner_success[OF this] assms(5) have "tolerated c max_depth x" by simp
  then show ?thesis using approval_missing_not_tolerated by blast
qed

text \<open>
  C5. In the loop over the children, a recursive call that raises \<open>NotDirectoryError\<close> adds
  nothing and the loop goes on with the remaining siblings; when every child either returns or
  raises \<open>NotDirectoryError\<close>, \<open>ls\<close> returns the children followed by what the children added.
  An \<open>AccessForbiddenError\<close> of \<open>Get\<close> or of \<open>ListFiles\<close> makes \<open>ls\<close> raise
  \<open>ApprovalMissingError\<close> with the client id. An \<open>ApprovalMissingError\<close> raised by the call on a
  child, the earlier siblings having been passed, is raised unchanged by the call on the parent,
  hence through every level up to the top call. A call that returns has had no child whose call
  raised \<open>ApprovalMissingError\<close>.
\<close>

theorem ls_absorbs_only_not_directory:
  "(ls c (pathspec_path entry) (max_depth - 1) = Inl (NotDirectoryError cid p) \<longrightarrow>
      sub_entries c max_depth entry = []
      \<and> ls_inner c (entry # rest) max_depth inner = ls_inner c rest max_depth inner)
   \<and> (1 \<le> max_depth \<and> File_Get c (get_vfs_path path) = Inr f \<and> is_directory f
        \<and> ListFiles f = Inr stat_entries
        \<and> (\<forall>x \<in> set stat_entries. tolerated c max_depth x) \<longrightarrow>
      ls c path max_depth
        = Inr (stat_entries @ concat (map (sub_entries c max_depth) stat_entries)))
   \<and> (1 \<le> max_depth \<and> File_Get c (get_vfs_path path) = Inl (AccessForbiddenError e) \<longrightarrow>
      ls c path max_depth = Inl (ApprovalMissingError (client_id c) (AccessForbiddenError e)))
   \<and> (1 \<le> max_depth \<and> File_Get c (get_vfs_path path) = Inr f \<and> is_directory f
        \<and> ListFiles f = Inl (AccessForbiddenError e) \<longrightarrow>
      ls c path max_depth = Inl (ApprovalMissingError (client_id c) (AccessForbiddenError e)))
   \<and> (1 \<le> max_depth \<and> File_Get c (get_vfs_path path) = Inr f \<and> is_directory f
        \<and> ListFiles f = Inr (pre @ child # post)
        \<and> (\<forall>x \<in> set pre. tolerated c max_depth x)
        \<and> ls c (pathspec_path child) (max_depth - 1) = Inl (ApprovalMissingError cid' e') \<longrightarrow>
      ls c path max_depth = Inl (ApprovalMissingError cid' e'))
   \<and> (1 \<le> max_depth \<and> File_Get c (get_vfs_path path) = Inr f
        \<and> ListFiles f = Inr stat_entries \<and> ls c path max_depth = Inr result \<longrightarrow>
      (\<forall>x \<in> set stat_entries.
         ls c (pathspec_path x) (max_depth - 1) \<noteq> Inl (ApprovalMissingError cid' e')))"
proof (intro conjI impI)
  assume "ls c (pathspec_path entry) (max_depth - 1) = Inl (NotDirectoryError cid p)"
  then show "sub_entries c max_depth entry = []"
    and "ls_inner c (entry # rest) max_depth inner = ls_inner c rest max_depth inner"
    using tolerated_not_directory ls_inner_swallow by blast+
next
  assume "1 \<le> max_depth \<and> File_Get c (get_vfs_path path) = Inr f \<and> is_directory f
        \<and> ListFiles f = Inr stat_entries
        \<and> (\<forall>x \<in> set stat_entries. tolerated c max_depth x)"
  then show "ls c path max_depth
        = Inr (stat_entries @ concat (map (sub_entries c max_depth) stat_entries))"
    using ls_children_tolerated by blast
next
  assume "1 \<le> max_depth \<and> File_Get c (get_vfs_path path) = Inl (AccessForbiddenError e)"
  then show "ls c path max_depth
        = Inl (ApprovalMissingError (client_id c) (AccessForbiddenError e))"
    using ls_get_denied by blast
next
  assume "1 \<le> max_depth \<and> File_Get c (get_vfs_path path) = Inr f \<and> is_directory f
        \<and> ListFiles f = Inl (AccessForbiddenError e)"
  then show "ls c path max_depth
        = Inl (ApprovalMissingError (client_id c) (AccessForbiddenError e))"
    using ls_list_denied by blast
next
  assume "1 \<le> max_depth \<and> File_Get c (get_vfs_path path) = Inr f \<and> is_directory f
        \<and> ListFiles f = Inr (pre @ child # post)
        \<and> (\<forall>x \<in> set pre. tolerated c max_depth x)
        \<and> ls c (pathspec_path child) (max_depth - 1) = Inl (ApprovalMissingError cid' e')"
  then show "ls c path max_depth = Inl (ApprovalMissingError cid' e')"
    using ls_child_denied by blast
next
  assume "1 \<le> max_depth \<and> File_Get c (get_vfs_path path) = Inr f
        \<and> ListFiles f = Inr stat_entries \<and> ls c path max_depth = Inr result"
  then show "\<forall>x \<in> set stat_entries.
         ls c (pathspec_path x) (max_depth - 1) \<noteq> Inl (ApprovalMissingError cid' e')"
    using ls_success_no_denied_child by blast
qed

lemma tolerated_locked_F: "tolerated locked_client 2 entry_F"
  by (simp add: tolerated_def entry_paths ls_locked_F)

text \<open>
  The sample tree with the forbidden directory: \<open>F\<close> is passed, \<open>B\<close> is denied, and the top call
  raises what the call on \<open>B\<close> raised.
\<close>

theorem ls_absorbs_only_not_directory_witness:
  "ls locked_client ''/r/F'' 1 = Inl (NotDirectoryError ''C.1'' ''/r/F'')
   \<and> ls locked_client ''/r/B'' 1
       = Inl (ApprovalMissingError ''C.1'' (AccessForbiddenError ''no approval''))
   \<and> ls locked_client ''/r'' 2
       = Inl (ApprovalMissingError ''C.1'' (AccessForbiddenError ''no approval''))"
proof -
  have pre: "\<forall>x \<in> set [entry_F]. tolerated locked_client 2 x"
    using tolerated_locked_F by simp
  have child: "ls locked_client (pathspec_path entry_B) (2 - 1)
                 = Inl (ApprovalMissingError ''C.1'' (AccessForbiddenError ''no approval''))"
    by (simp add: entry_paths ls_locked_B)
  have lst: "ListFiles \<lparr>is_directory = True, ListFiles = Inr [entry_F, entry_B, entry_A]\<rparr>
               = Inr ([entry_F] @ entry_B # [entry_A])"
    by simp
  have dir: "is_directory \<lparr>is_directory = True, ListFiles = Inr [entry_F, entry_B, entry_A]\<rparr>"
    by simp
  have depth: "(1::int) \<le> 2"
    by simp
  have "ls locked_client ''/r'' 2
          = Inl (ApprovalMissingError ''C.1'' (AccessForbiddenError ''no approval''))"
    using ls_absorbs_only_not_directory
      [of locked_client entry_F 2 "''C.1''" "''/r/F''" "[]" "[]" "''/r''"
          "\<lparr>is_directory = True, ListFiles = Inr [entry_F, entry_B, entry_A]\<rparr>"
          "[entry_F, entry_B, entry_A]" "''no approval''" "[entry_F]" entry_B "[entry_A]"
          "''C.1''" "AccessForbiddenError ''no approval''" "[]"]
      pre child lst dir depth locked_client_get(1)
    by blast
  then show ?thesis using ls_locked_F ls_locked_B by blast
qed

section \<open>\<open>read\<close> with a size of 0\<close>

lemma all_step1:
  "read_from_buffer (init demo_fetch) (- 1)
     = ([1, 2], partly_read_file\<lparr>buffer_pos := 2, pos := 2\<rparr>)"
  unfolding read_from_buffer_def Let_def
  by (simp add: init_def demo_fetch_def partly_read_file_def is_buffer_empty_def load_buffer_def
      py_slice_def py_index_def)

lemma all_step2:
  "k < 0 \<Longrightarrow>
   read_from_buffer (partly_read_file\<lparr>buffer_pos := 2, pos := 2\<rparr>) k = ([3], refilled_file)"
  unfolding read_from_buffer_def Let_def
  by (simp add: partly_read_file_def refilled_file_def is_buffer_empty_def load_buffer_def
      py_slice_def py_index_def)

lemma all_step3: "k < 0 \<Longrightarrow> read_from_buffer refilled_file k = ([], exhausted_file)"
  unfolding read_from_buffer_def Let_def
  by (simp add: refilled_file_def exhausted_file_def is_buffer_empty_def load_buffer_def
      py_slice_def py_index_def)

lemma rest_step1:
  "read_from_buffer partly_read_file (- 1)
     = ([2], partly_read_file\<lparr>buffer_pos := 2, pos := 2\<rparr>)"
  unfolding read_from_buffer_def Let_def
  by (simp add: partly_read_file_def is_buffer_empty_def py_slice_def py_index_def)

lemma sample_flags:
  "\<not> eof (init demo_fetch)" "\<not> closed (init demo_fetch)"
  "\<not> eof partly_read_file" "\<not> closed partly_read_file"
  "\<not> eof (partly_read_file\<lparr>buffer_pos := 2, pos := 2\<rparr>)"
  "\<not> eof refilled_file" "eof exhausted_file" "\<not> closed exhausted_file"
  by (simp_all add: init_def partly_read_file_def refilled_file_def exhausted_file_def)

lemma read_loop_exhausted: "read_loop n acc exhausted_file = (acc, exhausted_file)"
  by (subst read_loop.simps) (simp add: sample_flags)

lemma read_loop_refilled:
  "read_loop (- 1) [1, 2, 3] refilled_file = ([1, 2, 3], exhausted_file)"
  by (subst read_loop.simps) (simp add: sample_flags all_step3 read_loop_exhausted)

lemma read_loop_second:
  "read_loop (- 1) [1, 2] (partly_read_file\<lparr>buffer_pos := 2, pos := 2\<rparr>)
     = ([1, 2, 3], exhausted_file)"
  by (subst read_loop.simps) (simp add: sample_flags all_step2 read_loop_refilled)

lemma read_all_demo: "read_loop (- 1) [] (init demo_fetch) = ([1, 2, 3], exhausted_file)"
  by (subst read_loop.simps) (simp add: sample_flags all_step1 read_loop_second)

lemma read_one_demo: "read_loop 1 [] (init demo_fetch) = ([1], partly_read_file)"
proof -
  have "read_loop 1 [1] partly_read_file = ([1], partly_read_file)"
    by (subst read_loop.simps) simp
  then show ?thesis
    by (subst read_loop.simps) (simp add: sample_flags part_step)
qed

lemma read_rest_demo: "read_loop (- 1) [] partly_read_file = ([2, 3], exhausted_file)"
proof -
  have a: "read_loop (- 1) [2, 3] refilled_file = ([2, 3], exhausted_file)"
    by (subst read_loop.simps) (simp add: sample_flags all_step3 read_loop_exhausted)
  have b: "read_loop (- 1) [2] (partly_read_file\<lparr>buffer_pos := 2, pos := 2\<rparr>)
             = ([2, 3], exhausted_file)"
    by (subst read_loop.simps) (simp add: sample_flags all_step2 a)
  show ?thesis
    by (subst read_loop.simps) (simp add: sample_flags rest_step1 b)
qed

text \<open>
  C3 fails for a size of 0. The statement \<open>size = size or -1\<close> replaces the size 0 by -1, so
  \<open>read(0)\<close> reads to the end of the content: on a fresh file over the three-byte source it
  returns three bytes, more than the 0 asked for.
\<close>

theorem read_zero_reads_to_end:
  "read (init demo_fetch) 0 = Inr ([1, 2, 3], exhausted_file)
   \<and> \<not> int (length [1, 2, 3 :: byte]) \<le> 0"
  by (simp add: read_open sample_flags read_all_demo)

text \<open>
  C4 fails for a split at 0, by the same statement. On fresh files over the three-byte source,
  \<open>read(0)\<close> then \<open>read(1)\<close> yield all three bytes where \<open>read(0 + 1)\<close> yields the first one;
  \<open>read(1)\<close> then \<open>read(0)\<close> yield all three bytes where \<open>read(1 + 0)\<close> yields the first one.
\<close>

theorem read_split_at_zero_differs:
  "read (init demo_fetch) 0 = Inr ([1, 2, 3], exhausted_file)
   \<and> read exhausted_file 1 = Inr ([], exhausted_file)
   \<and> read (init demo_fetch) (0 + 1) = Inr ([1], partly_read_file)
   \<and> [1, 2, 3] @ [] \<noteq> [1 :: byte]
   \<and> read (init demo_fetch) 1 = Inr ([1], partly_read_file)
   \<and> read partly_read_file 0 = Inr ([2, 3], exhausted_file)
   \<and> read (init demo_fetch) (1 + 0) = Inr ([1], partly_read_file)
   \<and> [1] @ [2, 3] \<noteq> [1 :: byte]"
  by (simp add: read_open sample_flags read_all_demo read_one_demo read_rest_demo
      read_loop_exhausted)

end
